theory Spec2Isabelle
  imports Complex_Main "HOL-Library.Multiset" "HOL-Library.Sublist" "HOL-Library.Product_Lexorder"
begin

section \<open>Synchronised start and supervision of capture threads (FFmpeg\_script.py)\<close>

text \<open>
  The script probes or is given one start offset per input stream, turns the offsets into a
  queue of relative delays, starts one recording thread per queue entry at its delay, and
  then polls the threads for ever, restarting the dead ones.

  Conventions of the embedding:
  \<^item> a Python exception is a value of \<open>error\<close>; a function that may raise returns
    \<open>error + 'a\<close>, with \<open>Inl\<close> for the exception;
  \<^item> a Python float is a value of \<open>pyfloat\<close>: a finite number, an infinity or \<open>nan\<close>,
    with the comparisons and the rounded subtraction of binary64 arithmetic;
  \<^item> the outside world (ffprobe, the clocks, the liveness of threads, the module's global
    namespace) is a record \<open>env\<close> that the functions read; what the program changes
    (clock readings consumed, probes made, threads started) is a record \<open>world\<close>
    that is passed through;
  \<^item> a loop that may spin for ever returns \<open>option\<close>, with \<open>None\<close> for not returning;
  \<^item> calls of \<open>logging\<close> and \<open>print\<close> are left out.
\<close>

subsection \<open>Exceptions\<close>

datatype error =
    ValueError string
  | NameError string
  | KeyError string
  | TypeError
  | AttributeError
  | IndexError
  | StopIteration
  | ProbeFailure
  | SystemExit int

text \<open>
  \<open>ProbeFailure\<close> stands for whatever \<open>ffmpeg.probe\<close> itself raises (a failed
  \<open>ffprobe\<close> run, an undecodable answer).
\<close>

subsection \<open>Floats\<close>

text \<open>
  A Python float is an IEEE 754 binary64 number. \<open>Finite x\<close> stands for the finite float
  of value \<open>x\<close> (the two zeros are not told apart: they compare equal and nothing here
  divides). The command line option \<open>-d\<close> converts its arguments with \<open>float\<close>, which
  also accepts \<open>inf\<close>, \<open>-inf\<close> and \<open>nan\<close>.
\<close>

datatype pyfloat = Finite real | PosInf | NegInf | NaN

text \<open>\<open>a < b\<close> and \<open>a <= b\<close>: false whenever \<open>nan\<close> is involved.\<close>

fun float_lt :: "pyfloat \<Rightarrow> pyfloat \<Rightarrow> bool" where
  "float_lt NaN b = False"
| "float_lt a NaN = False"
| "float_lt (Finite x) (Finite y) = (x < y)"
| "float_lt (Finite x) PosInf = True"
| "float_lt (Finite x) NegInf = False"
| "float_lt PosInf b = False"
| "float_lt NegInf NegInf = False"
| "float_lt NegInf b = True"

fun float_le :: "pyfloat \<Rightarrow> pyfloat \<Rightarrow> bool" where
  "float_le NaN b = False"
| "float_le a NaN = False"
| "float_le (Finite x) (Finite y) = (x \<le> y)"
| "float_le (Finite x) PosInf = True"
| "float_le (Finite x) NegInf = False"
| "float_le PosInf PosInf = True"
| "float_le PosInf b = False"
| "float_le NegInf b = True"

text \<open>
  Rounding to the nearest binary64 number, ties to the even significand. For a magnitude
  \<open>a > 0\<close>, \<open>exponent a\<close> is the binary exponent of \<open>a\<close>, kept within the range of the
  format (\<open>-1022\<close> for the subnormal numbers, \<open>1023\<close> at most); the numbers of that
  exponent are the multiples of \<open>2 powi (exponent a - 52)\<close>, and a result of \<open>2 ^ 1024\<close>
  or more is an overflow.
\<close>

definition round_half_even :: "real \<Rightarrow> int" where
  "round_half_even z =
     (let f = \<lfloor>z\<rfloor> in
      if z - of_int f < 1 / 2 then f
      else if 1 / 2 < z - of_int f then f + 1
      else if even f then f else f + 1)"

fun exponent_from :: "nat \<Rightarrow> real \<Rightarrow> int" where
  "exponent_from 0 a = - 1022"
| "exponent_from (Suc n) a =
     (if 2 powi (int (Suc n) - 1022) \<le> a then int (Suc n) - 1022 else exponent_from n a)"

definition exponent :: "real \<Rightarrow> int" where
  "exponent a = exponent_from 2045 a"

definition round_magnitude :: "real \<Rightarrow> pyfloat" where
  "round_magnitude a =
     (let q = 2 powi (exponent a - 52);
          y = of_int (round_half_even (a / q)) * q
      in if 2 ^ 1024 \<le> y then PosInf else Finite y)"

fun float_neg :: "pyfloat \<Rightarrow> pyfloat" where
  "float_neg (Finite x) = Finite (- x)"
| "float_neg PosInf = NegInf"
| "float_neg NegInf = PosInf"
| "float_neg NaN = NaN"

definition binary64 :: "real \<Rightarrow> pyfloat" where
  "binary64 x =
     (if x = 0 then Finite 0
      else if 0 < x then round_magnitude x
      else float_neg (round_magnitude (- x)))"

text \<open>\<open>a - b\<close>: the exact difference of two finite floats, rounded.\<close>

fun float_sub :: "pyfloat \<Rightarrow> pyfloat \<Rightarrow> pyfloat" where
  "float_sub NaN b = NaN"
| "float_sub a NaN = NaN"
| "float_sub (Finite x) (Finite y) = binary64 (x - y)"
| "float_sub (Finite x) PosInf = NegInf"
| "float_sub (Finite x) NegInf = PosInf"
| "float_sub PosInf PosInf = NaN"
| "float_sub PosInf b = PosInf"
| "float_sub NegInf NegInf = NaN"
| "float_sub NegInf b = NegInf"

text \<open>
  The floats other than \<open>nan\<close> are totally ordered; \<open>rank\<close> places them in a linear
  order, for stating what sorting them means.
\<close>

fun rank :: "pyfloat \<Rightarrow> int \<times> real" where
  "rank (Finite x) = (0, x)"
| "rank PosInf = (1, 0)"
| "rank NegInf = (- 1, 0)"
| "rank NaN = (2, 0)"

subsection \<open>list.sort\<close>

text \<open>
  \<open>list.sort(key=...)\<close> as CPython 3.10 and 3.11 run it on a list of fewer than 64 entries
  (the script needs 3.10 for its annotations): \<open>count_run\<close> takes the longest run at the
  front that is non-descending or strictly descending and reverses a descending one, then
  \<open>binarysort\<close> inserts the remaining entries one by one, each at the place a binary search
  with \<open>pivot < entry\<close> finds among the entries already placed. Longer lists are sorted by
  merging such runs, which is not modelled; when no key is \<open>nan\<close> the result is the
  stable sort either way (\<open>list_sort_rank\<close> below).
\<close>

function bisect :: "('a \<Rightarrow> pyfloat) \<Rightarrow> 'a \<Rightarrow> 'a list \<Rightarrow> nat \<Rightarrow> nat \<Rightarrow> nat" where
  "bisect key pivot xs l r =
     (if l < r then
        let p = l + (r - l) div 2 in
        if float_lt (key pivot) (key (xs ! p)) then bisect key pivot xs l p
        else bisect key pivot xs (Suc p) r
      else l)"
  by pat_completeness auto
termination
  by (relation "measure (\<lambda>(key, pivot, xs, l, r). r - l)") auto

declare bisect.simps [simp del]

fun binarysort :: "('a \<Rightarrow> pyfloat) \<Rightarrow> 'a list \<Rightarrow> 'a list \<Rightarrow> 'a list" where
  "binarysort key sorted_part [] = sorted_part"
| "binarysort key sorted_part (pivot # rest) =
     (let pos = bisect key pivot sorted_part 0 (length sorted_part)
      in binarysort key (take pos sorted_part @ pivot # drop pos sorted_part) rest)"

fun ascending_run :: "('a \<Rightarrow> pyfloat) \<Rightarrow> 'a \<Rightarrow> 'a list \<Rightarrow> nat" where
  "ascending_run key prev [] = 0"
| "ascending_run key prev (x # xs) =
     (if float_lt (key x) (key prev) then 0 else Suc (ascending_run key x xs))"

fun descending_run :: "('a \<Rightarrow> pyfloat) \<Rightarrow> 'a \<Rightarrow> 'a list \<Rightarrow> nat" where
  "descending_run key prev [] = 0"
| "descending_run key prev (x # xs) =
     (if float_lt (key x) (key prev) then Suc (descending_run key x xs) else 0)"

fun count_run :: "('a \<Rightarrow> pyfloat) \<Rightarrow> 'a list \<Rightarrow> nat \<times> bool" where
  "count_run key [] = (0, False)"
| "count_run key [x] = (1, False)"
| "count_run key (x # y # ys) =
     (if float_lt (key y) (key x) then (2 + descending_run key y ys, True)
      else (2 + ascending_run key y ys, False))"

definition list_sort :: "('a \<Rightarrow> pyfloat) \<Rightarrow> 'a list \<Rightarrow> 'a list" where
  "list_sort key xs =
     (case count_run key xs of
        (n, descending) \<Rightarrow>
          binarysort key (if descending then rev (take n xs) else take n xs) (drop n xs))"

subsection \<open>The answer of ffprobe\<close>

text \<open>
  \<open>ffmpeg.probe\<close> returns the decoded JSON output of \<open>ffprobe\<close>. A dictionary is an
  association list in insertion order, looked up with \<open>map_of\<close>.
\<close>

datatype json =
    JNull
  | JBool bool
  | JNum pyfloat
  | JStr string
  | JList "json list"
  | JDict "(string \<times> json) list"

text \<open>\<open>v[key]\<close> for a string key: only a dictionary can be subscripted with a string.\<close>

fun subscript :: "json \<Rightarrow> string \<Rightarrow> error + json" where
  "subscript (JDict d) k = (case map_of d k of None \<Rightarrow> Inl (KeyError k) | Some v \<Rightarrow> Inr v)"
| "subscript _ k = Inl TypeError"

text \<open>
  \<open>iter(v)\<close>: a list yields its elements, a dictionary its keys, a string its characters;
  nothing else is iterable.
\<close>

fun iterate :: "json \<Rightarrow> error + json list" where
  "iterate (JList l) = Inr l"
| "iterate (JDict d) = Inr (map (\<lambda>kv. JStr (fst kv)) d)"
| "iterate (JStr s) = Inr (map (\<lambda>c. JStr [c]) s)"
| "iterate _ = Inl TypeError"

text \<open>Truth value of an object, as \<open>not v\<close> tests it.\<close>

fun truthy :: "json \<Rightarrow> bool" where
  "truthy JNull = False"
| "truthy (JBool b) = b"
| "truthy (JNum x) = (x \<noteq> Finite 0)"
| "truthy (JStr s) = (s \<noteq> [])"
| "truthy (JList l) = (l \<noteq> [])"
| "truthy (JDict d) = (d \<noteq> [])"

text \<open>
  \<open>next(stream for stream in streams if stream["codec_type"] == "video")\<close>: the generator
  is advanced until the first stream that passes the test; a failing subscript raises out of
  it, and an exhausted generator makes \<open>next\<close> raise \<open>StopIteration\<close>.
\<close>

fun first_video :: "json list \<Rightarrow> error + json" where
  "first_video [] = Inl StopIteration"
| "first_video (s # ss) =
     (case subscript s ''codec_type'' of
        Inl err \<Rightarrow> Inl err
      | Inr v \<Rightarrow> if v = JStr ''video'' then Inr s else first_video ss)"

subsection \<open>The world outside the script\<close>

record timestamp =
  year :: nat
  month :: nat
  day :: nat
  hour :: nat
  minute :: nat
  second :: nat
  microsecond :: nat

text \<open>
  \<open>ticks\<close> counts the clock readings taken so far (\<open>time()\<close> and \<open>datetime.now()\<close>),
  \<open>polls\<close> the liveness queries, \<open>probed\<close> lists the streams handed to \<open>ffmpeg.probe\<close>
  and \<open>started\<close> the arguments of \<open>record_video\<close> for every thread started, in order.
  The handle of a thread is its position in \<open>started\<close>.
\<close>

record world =
  ticks :: nat
  polls :: nat
  probed :: "string list"
  started :: "(string \<times> string option \<times> string) list"

text \<open>
  \<open>globals_get_filename\<close> is what the module's global namespace holds under the name
  \<open>get_filename\<close> when \<open>create_thread\<close> looks it up: \<open>None\<close> when the name is unbound.
  \<open>float_of_str\<close> is the built-in conversion \<open>float(s)\<close> of a string.
\<close>

record env =
  probe :: "string \<Rightarrow> json option"
  float_of_str :: "string \<Rightarrow> pyfloat option"
  time_at :: "nat \<Rightarrow> real"
  now_at :: "nat \<Rightarrow> timestamp"
  is_alive :: "nat \<Rightarrow> nat \<Rightarrow> bool"
  globals_get_filename :: "(string \<Rightarrow> world \<Rightarrow> (error + string) \<times> world) option"
  interrupt_after :: nat

subsection \<open>get\_stream\_delay\<close>

text \<open>\<open>float(v)\<close>.\<close>

fun py_float :: "env \<Rightarrow> json \<Rightarrow> error + pyfloat" where
  "py_float e (JNum x) = Inr x"
| "py_float e (JBool b) = Inr (Finite (if b then 1 else 0))"
| "py_float e (JStr s) =
     (case float_of_str e s of
        None \<Rightarrow> Inl (ValueError ''could not convert string to float'')
      | Some x \<Rightarrow> Inr x)"
| "py_float e _ = Inl TypeError"

text \<open>What lines 41 to 45 make of the answer of the probe.\<close>

definition delay_of_probe :: "env \<Rightarrow> json \<Rightarrow> error + pyfloat" where
  "delay_of_probe e pr =
     (case subscript pr ''streams'' of
        Inl err \<Rightarrow> Inl err
      | Inr streams \<Rightarrow>
          (case iterate streams of
             Inl err \<Rightarrow> Inl err
           | Inr ss \<Rightarrow>
               (case first_video ss of
                  Inl err \<Rightarrow> Inl err
                | Inr video_stream \<Rightarrow>
                    if \<not> truthy video_stream then Inl (ValueError ''No video stream found'')
                    else
                      (case subscript video_stream ''start_time'' of
                         Inl err \<Rightarrow> Inl err
                       | Inr v \<Rightarrow> py_float e v))))"

text \<open>What a call of \<open>get_stream_delay\<close> returns or raises (lines 40 to 45).\<close>

definition probed_delay :: "env \<Rightarrow> string \<Rightarrow> error + pyfloat" where
  "probed_delay e stream_name =
     (case probe e stream_name of
        None \<Rightarrow> Inl ProbeFailure
      | Some pr \<Rightarrow> delay_of_probe e pr)"

definition get_stream_delay :: "env \<Rightarrow> string \<Rightarrow> world \<Rightarrow> (error + pyfloat) \<times> world" where
  "get_stream_delay e stream_name w =
     (probed_delay e stream_name, w\<lparr>probed := probed w @ [stream_name]\<rparr>)"

subsection \<open>make\_filename\<close>

text \<open>
  The pattern \<open>\d{1,3}\.\d{1,3}\.\d{1,3}\.\d{1,3}\<close>, matched the way a backtracking
  engine does: a matcher takes the text and returns what it matched, and
  \<open>match_digits k n\<close> tries \<open>n\<close> digits, then \<open>n - 1\<close>, down to one, each time followed
  by the continuation \<open>k\<close>. Stream names are ASCII, where \<open>\d\<close> is \<open>0\<close> to \<open>9\<close>.
\<close>

definition is_digit :: "char \<Rightarrow> bool" where
  "is_digit c \<longleftrightarrow> c \<in> set ''0123456789''"

fun match_digits :: "(string \<Rightarrow> string option) \<Rightarrow> nat \<Rightarrow> string \<Rightarrow> string option" where
  "match_digits k 0 s = None"
| "match_digits k (Suc n) s =
     (if Suc n \<le> length s \<and> list_all is_digit (take (Suc n) s)
      then (case k (drop (Suc n) s) of
              Some m \<Rightarrow> Some (take (Suc n) s @ m)
            | None \<Rightarrow> match_digits k n s)
      else match_digits k n s)"

fun match_lit :: "char \<Rightarrow> (string \<Rightarrow> string option) \<Rightarrow> string \<Rightarrow> string option" where
  "match_lit c k [] = None"
| "match_lit c k (x # xs) = (if x = c then map_option ((#) x) (k xs) else None)"

definition match_end :: "string \<Rightarrow> string option" where
  "match_end s = Some []"

definition match_ip :: "string \<Rightarrow> string option" where
  "match_ip =
     match_digits (match_lit CHR ''.''
       (match_digits (match_lit CHR ''.''
         (match_digits (match_lit CHR ''.''
           (match_digits match_end 3)) 3)) 3)) 3"

text \<open>\<open>re.search\<close>: the match at the leftmost position that has one.\<close>

fun re_search :: "string \<Rightarrow> string option" where
  "re_search [] = match_ip []"
| "re_search (c # cs) = (case match_ip (c # cs) of Some m \<Rightarrow> Some m | None \<Rightarrow> re_search cs)"

text \<open>
  \<open>now.strftime('%Y-%m-%d_%H-%M-%S')\<close>: the year in four digits, the other fields in two,
  zero padded. The microsecond is not printed.
\<close>

definition digit :: "nat \<Rightarrow> char" where
  "digit n = ''0123456789'' ! (n mod 10)"

definition pad2 :: "nat \<Rightarrow> string" where
  "pad2 n = [digit (n div 10), digit n]"

definition pad4 :: "nat \<Rightarrow> string" where
  "pad4 n = [digit (n div 1000), digit (n div 100), digit (n div 10), digit n]"

definition strftime :: "timestamp \<Rightarrow> string" where
  "strftime t =
     pad4 (year t) @ ''-'' @ pad2 (month t) @ ''-'' @ pad2 (day t) @ ''_'' @
     pad2 (hour t) @ ''-'' @ pad2 (minute t) @ ''-'' @ pad2 (second t)"

text \<open>The values a \<open>datetime\<close> can hold.\<close>

definition valid_timestamp :: "timestamp \<Rightarrow> bool" where
  "valid_timestamp t \<longleftrightarrow>
     1 \<le> year t \<and> year t \<le> 9999 \<and> 1 \<le> month t \<and> month t \<le> 12 \<and>
     1 \<le> day t \<and> day t \<le> 31 \<and> hour t < 24 \<and> minute t < 60 \<and> second t < 60 \<and>
     microsecond t < 1000000"

text \<open>The file name for a stream name and a reading of \<open>datetime.now()\<close>.\<close>

definition filename_at :: "string \<Rightarrow> timestamp \<Rightarrow> error + string" where
  "filename_at stream_name now =
     (case re_search stream_name of
        None \<Rightarrow> Inl AttributeError
      | Some ip \<Rightarrow> Inr (ip @ ''_'' @ strftime now @ ''.mp4''))"

text \<open>
  \<open>make_filename\<close> reads the clock only after the search has succeeded: \<open>.group(0)\<close> on
  the \<open>None\<close> of a failed search raises first.
\<close>

definition make_filename :: "env \<Rightarrow> string \<Rightarrow> world \<Rightarrow> (error + string) \<times> world" where
  "make_filename e stream_name w =
     (case re_search stream_name of
        None \<Rightarrow> (Inl AttributeError, w)
      | Some ip \<Rightarrow>
          (filename_at stream_name (now_at e (ticks w)), w\<lparr>ticks := Suc (ticks w)\<rparr>))"

subsection \<open>create\_thread\<close>

text \<open>
  The arguments of the thread are evaluated before the thread exists, and the third of them
  is the call \<open>get_filename(input_stream_name)\<close>. The module defines \<open>record_video\<close>,
  \<open>get_stream_delay\<close>, \<open>make_filename\<close>, \<open>create_thread\<close>, \<open>create_queue\<close>,
  \<open>start_queue\<close> and \<open>main\<close>, and imports nothing under the name \<open>get_filename\<close>, so as
  the module is written the lookup finds nothing: \<open>as_written\<close> is an environment with the
  name unbound.
\<close>

definition create_thread :: "env \<Rightarrow> string \<Rightarrow> string option \<Rightarrow> world \<Rightarrow> (error + nat) \<times> world" where
  "create_thread e input_stream_name audio_stream_name w =
     (case globals_get_filename e of
        None \<Rightarrow> (Inl (NameError ''get_filename''), w)
      | Some f \<Rightarrow>
          (case f input_stream_name w of
             (Inl err, w') \<Rightarrow> (Inl err, w')
           | (Inr output_file_name, w') \<Rightarrow>
               (Inr (length (started w')),
                w'\<lparr>started := started w' @
                       [(input_stream_name, audio_stream_name, output_file_name)]\<rparr>)))"

definition as_written :: "env \<Rightarrow> env" where
  "as_written e = e\<lparr>globals_get_filename := None\<rparr>"

subsection \<open>create\_queue\<close>

text \<open>The probing loop of lines 89 to 92: the first failing probe ends it.\<close>

fun probe_all ::
  "env \<Rightarrow> string list \<Rightarrow> (string \<times> pyfloat) list \<Rightarrow> world \<Rightarrow>
   (error + (string \<times> pyfloat) list) \<times> world"
where
  "probe_all e [] queue w = (Inr queue, w)"
| "probe_all e (n # ns) queue w =
     (case get_stream_delay e n w of
        (Inl err, w') \<Rightarrow> (Inl err, w')
      | (Inr delay, w') \<Rightarrow> probe_all e ns (queue @ [(n, delay)]) w')"

text \<open>
  \<open>min(queue, key=...)\<close>: the entry kept is replaced only by a later one whose key is
  less; no entry at all raises.
\<close>

fun py_min :: "('a \<Rightarrow> pyfloat) \<Rightarrow> 'a list \<Rightarrow> error + 'a" where
  "py_min f [] = Inl (ValueError ''min() arg is an empty sequence'')"
| "py_min f (x # xs) =
     Inr (foldl (\<lambda>best y. if float_lt (f y) (f best) then y else best) x xs)"

text \<open>
  Lines 93 to 100: the queue is sorted by the delay, then the delay that \<open>min\<close> finds is
  subtracted from every entry.
\<close>

definition shift_queue :: "(string \<times> pyfloat) list \<Rightarrow> error + (string \<times> pyfloat) list" where
  "shift_queue queue =
     (let sorted_queue = list_sort snd queue in
      case py_min snd sorted_queue of
        Inl err \<Rightarrow> Inl err
      | Inr least \<Rightarrow>
          Inr (map (\<lambda>entry. (fst entry, float_sub (snd entry) (snd least))) sorted_queue))"

text \<open>\<open>if delays:\<close> takes the first branch for a list with at least one element only.\<close>

definition create_queue ::
  "env \<Rightarrow> string list \<Rightarrow> pyfloat list option \<Rightarrow> world \<Rightarrow>
   (error + (string \<times> pyfloat) list) \<times> world"
where
  "create_queue e input_stream_names delays w =
     (case (case delays of
              Some (d # ds) \<Rightarrow> (Inr (zip input_stream_names (d # ds)), w)
            | _ \<Rightarrow> probe_all e input_stream_names [] w) of
        (Inl err, w') \<Rightarrow> (Inl err, w')
      | (Inr queue, w') \<Rightarrow> (shift_queue queue, w'))"

subsection \<open>start\_queue\<close>

text \<open>
  The inner loop reads \<open>time()\<close> until the reading less \<open>begin\<close> is not below \<open>delay\<close>;
  it returns the number of readings consumed so far, and nothing when no reading gets there.
  A delay of \<open>nan\<close> ends the wait at the first reading.
\<close>

partial_function (option) wait_until :: "env \<Rightarrow> real \<Rightarrow> pyfloat \<Rightarrow> nat \<Rightarrow> nat option" where
  "wait_until e begin0 delay n =
     (if float_lt (float_sub (Finite (time_at e n)) (Finite begin0)) delay
      then wait_until e begin0 delay (Suc n)
      else Some (Suc n))"

fun start_loop ::
  "env \<Rightarrow> real \<Rightarrow> string option \<Rightarrow> (string \<times> pyfloat) list \<Rightarrow> nat list \<Rightarrow> world \<Rightarrow>
   ((error + nat list) \<times> world) option"
where
  "start_loop e begin0 audio [] threads w = Some (Inr threads, w)"
| "start_loop e begin0 audio (entry # queue) threads w =
     (case wait_until e begin0 (snd entry) (ticks w) of
        None \<Rightarrow> None
      | Some n \<Rightarrow>
          (case create_thread e (fst entry) audio (w\<lparr>ticks := n\<rparr>) of
             (Inl err, w') \<Rightarrow> Some (Inl err, w')
           | (Inr thread, w') \<Rightarrow> start_loop e begin0 audio queue (threads @ [thread]) w'))"

definition start_queue ::
  "env \<Rightarrow> (string \<times> pyfloat) list \<Rightarrow> string option \<Rightarrow> world \<Rightarrow>
   ((error + nat list) \<times> world) option"
where
  "start_queue e queue audio w =
     start_loop e (time_at e (ticks w)) audio queue [] (w\<lparr>ticks := Suc (ticks w)\<rparr>)"

subsection \<open>main\<close>

text \<open>\<open>threads.index(thread)\<close>: the first position holding the handle.\<close>

fun index_of :: "nat list \<Rightarrow> nat \<Rightarrow> nat option" where
  "index_of [] t = None"
| "index_of (x # xs) t = (if x = t then Some 0 else map_option Suc (index_of xs t))"

text \<open>
  One pass of \<open>for thread in threads\<close>, from position \<open>i\<close>: the list iterator reads the
  list as it is when it gets to a position, so a handle replaced during the pass is seen
  only if its position is still ahead.
\<close>

function poll ::
  "env \<Rightarrow> string list \<Rightarrow> string option \<Rightarrow> nat \<Rightarrow> nat list \<Rightarrow> world \<Rightarrow> (error + nat list) \<times> world"
where
  "poll e input_stream_names audio i threads w =
     (if length threads \<le> i then (Inr threads, w)
      else
        let thread = threads ! i; w1 = w\<lparr>polls := Suc (polls w)\<rparr> in
        if is_alive e (polls w) thread then poll e input_stream_names audio (Suc i) threads w1
        else
          (case index_of threads thread of
             None \<Rightarrow> (Inl (ValueError ''not in list''), w1)
           | Some ind \<Rightarrow>
               if length input_stream_names \<le> ind then (Inl IndexError, w1)
               else
                 (case create_thread e (input_stream_names ! ind) audio w1 of
                    (Inl err, w2) \<Rightarrow> (Inl err, w2)
                  | (Inr new_thread, w2) \<Rightarrow>
                      poll e input_stream_names audio (Suc i) (threads[ind := new_thread]) w2)))"
  by pat_completeness auto
termination
  by (relation "measure (\<lambda>(e, names, audio, i, threads, w). length threads - i)") auto

text \<open>
  \<open>while True\<close>, left only by an exception. The interrupt of the operator is taken to arrive
  between two passes, after \<open>passes\<close> of them; it is caught and the script ends with
  \<open>sys.exit(0)\<close>. Any other exception leaves \<open>main\<close> as it is.
\<close>

fun supervise ::
  "env \<Rightarrow> string list \<Rightarrow> string option \<Rightarrow> nat \<Rightarrow> nat list \<Rightarrow> world \<Rightarrow> error \<times> world"
where
  "supervise e input_stream_names audio 0 threads w = (SystemExit 0, w)"
| "supervise e input_stream_names audio (Suc passes) threads w =
     (case poll e input_stream_names audio 0 threads w of
        (Inl err, w') \<Rightarrow> (err, w')
      | (Inr threads', w') \<Rightarrow> supervise e input_stream_names audio passes threads' w')"

definition count_mismatch :: "string list \<Rightarrow> pyfloat list option \<Rightarrow> bool" where
  "count_mismatch input_stream_names delays =
     (case delays of
        Some (d # ds) \<Rightarrow> length input_stream_names \<noteq> length (d # ds)
      | _ \<Rightarrow> False)"

definition main ::
  "env \<Rightarrow> string list \<Rightarrow> string option \<Rightarrow> pyfloat list option \<Rightarrow> world \<Rightarrow>
   (error \<times> world) option"
where
  "main e input_stream_names audio delays w =
     (if count_mismatch input_stream_names delays
      then Some (ValueError ''Number of delays must be equal to number of input streams'', w)
      else
        (case create_queue e input_stream_names delays w of
           (Inl err, w1) \<Rightarrow> Some (err, w1)
         | (Inr queue, w1) \<Rightarrow>
             (case start_queue e queue audio w1 of
                None \<Rightarrow> None
              | Some (Inl err, w2) \<Rightarrow> Some (err, w2)
              | Some (Inr threads, w2) \<Rightarrow>
                  Some (supervise e input_stream_names audio (interrupt_after e) threads w2))))"

subsection \<open>A concrete run\<close>

text \<open>
  Three cameras: the probe of \<open>cam_a\<close> finds an audio and a video stream starting at 3
  seconds, that of \<open>cam_b\<close> a video stream starting at 1 second, that of \<open>cam_c\<close> an
  audio stream only; every other probe fails. The clock advances by one second from one
  reading to the next, and the thread with handle 0 is found dead whenever it is asked.
  \<open>example_env\<close> has the global namespace of the module as it is written;
  \<open>patched_env\<close> is the same with \<open>get_filename\<close> bound to \<open>make_filename\<close>.
\<close>

definition cam_a :: string where "cam_a = ''rtsp://10.0.0.1:554/a''"
definition cam_b :: string where "cam_b = ''rtsp://10.0.0.2:554/b''"
definition cam_c :: string where "cam_c = ''rtsp://10.0.0.3:554/c''"

definition example_probe :: "string \<Rightarrow> json option" where
  "example_probe = map_of
     [(cam_a, JDict [(''streams'', JList
         [JDict [(''codec_type'', JStr ''audio'')],
          JDict [(''codec_type'', JStr ''video''), (''start_time'', JStr ''3.000000'')]])]),
      (cam_b, JDict [(''streams'', JList
         [JDict [(''codec_type'', JStr ''video''), (''start_time'', JStr ''1.000000'')]])]),
      (cam_c, JDict [(''streams'', JList
         [JDict [(''codec_type'', JStr ''audio''), (''start_time'', JStr ''0.000000'')]])])]"

definition example_now :: timestamp where
  "example_now =
     \<lparr>year = 2024, month = 5, day = 17, hour = 9, minute = 3, second = 41, microsecond = 120000\<rparr>"

definition example_env :: env where
  "example_env =
     \<lparr>probe = example_probe,
      float_of_str =
        map_of [(''3.000000'', Finite 3), (''1.000000'', Finite 1), (''0.000000'', Finite 0)],
      time_at = (\<lambda>n. real n),
      now_at = (\<lambda>n. example_now),
      is_alive = (\<lambda>query thread. thread \<noteq> 0),
      globals_get_filename = None,
      interrupt_after = 1\<rparr>"


definition initial_world :: world where
  "initial_world = \<lparr>ticks = 0, polls = 0, probed = [], started = []\<rparr>"

section \<open>Properties\<close>

subsection \<open>Rounding\<close>

lemma exponent_from_bounds: "- 1022 \<le> exponent_from n a \<and> exponent_from n a \<le> int n - 1022"
  by (induction n) auto

lemma exponent_from_lower: "- 1022 < exponent_from n a \<Longrightarrow> 2 powi exponent_from n a \<le> a"
  by (induction n) (auto split: if_splits)

lemma exponent_from_upper:
  "exponent_from n a < int n - 1022 \<Longrightarrow> a < 2 powi (exponent_from n a + 1)"
proof (induction n)
  case 0
  then show ?case by simp
next
  case (Suc n)
  show ?case
  proof (cases "2 powi (int (Suc n) - 1022) \<le> a")
    case True
    with Suc.prems show ?thesis by simp
  next
    case False
    then have e: "exponent_from (Suc n) a = exponent_from n a" by simp
    show ?thesis
    proof (cases "exponent_from n a < int n - 1022")
      case True
      with Suc.IH e show ?thesis by simp
    next
      case False
      with exponent_from_bounds [of n a] have "exponent_from n a = int n - 1022" by simp
      then have "exponent_from (Suc n) a + 1 = int (Suc n) - 1022" using e by simp
      with \<open>\<not> 2 powi (int (Suc n) - 1022) \<le> a\<close> show ?thesis
        by (simp only: not_le)
    qed
  qed
qed

lemma exponent_from_mono: "a \<le> b \<Longrightarrow> exponent_from n a \<le> exponent_from n b"
proof (induction n)
  case 0
  then show ?case by simp
next
  case (Suc n)
  then show ?case
    using exponent_from_bounds [of n a] by auto
qed

lemma exponent_bounds: "- 1022 \<le> exponent a" "exponent a \<le> 1023"
  using exponent_from_bounds [of 2045 a] by (simp_all add: exponent_def)

lemma exponent_lower: "- 1022 < exponent a \<Longrightarrow> 2 powi exponent a \<le> a"
  unfolding exponent_def by (rule exponent_from_lower)

lemma exponent_upper: "exponent a < 1023 \<Longrightarrow> a < 2 powi (exponent a + 1)"
  unfolding exponent_def using exponent_from_upper [of 2045 a] by simp

lemma exponent_mono: "a \<le> b \<Longrightarrow> exponent a \<le> exponent b"
  unfolding exponent_def by (rule exponent_from_mono)


lemma exponent_eq:
  assumes "2 powi e \<le> a" and "a < 2 powi (e + 1)" and "- 1022 \<le> e" and "e \<le> 1023"
  shows "exponent a = e"
proof (rule antisym)
  show "exponent a \<le> e"
  proof (rule ccontr)
    assume "\<not> exponent a \<le> e"
    then have l: "e + 1 \<le> exponent a" by simp
    with assms(3) have "2 powi exponent a \<le> a" by (intro exponent_lower) simp
    moreover from l have "(2::real) powi (e + 1) \<le> 2 powi exponent a"
      by (intro power_int_increasing) simp_all
    ultimately show False using assms(2) by simp
  qed
  show "e \<le> exponent a"
  proof (rule ccontr)
    assume "\<not> e \<le> exponent a"
    then have l: "exponent a + 1 \<le> e" by simp
    with assms(4) have "a < 2 powi (exponent a + 1)" by (intro exponent_upper) simp
    moreover from l have "(2::real) powi (exponent a + 1) \<le> 2 powi e"
      by (intro power_int_increasing) simp_all
    ultimately show False using assms(1) by simp
  qed
qed

lemma round_half_even_bounds: "\<lfloor>z\<rfloor> \<le> round_half_even z" "round_half_even z \<le> \<lfloor>z\<rfloor> + 1"
  by (simp_all add: round_half_even_def Let_def)

lemma round_half_even_of_int: "round_half_even (of_int n) = n"
  by (simp add: round_half_even_def)

lemma round_half_even_mono: "x \<le> y \<Longrightarrow> round_half_even x \<le> round_half_even y"
proof -
  assume xy: "x \<le> y"
  then have f: "\<lfloor>x\<rfloor> \<le> \<lfloor>y\<rfloor>" by (rule floor_mono)
  show ?thesis
  proof (cases "\<lfloor>x\<rfloor> = \<lfloor>y\<rfloor>")
    case True
    with xy have "x - of_int \<lfloor>x\<rfloor> \<le> y - of_int \<lfloor>y\<rfloor>" by simp
    with True show ?thesis by (auto simp: round_half_even_def Let_def)
  next
    case False
    with f have "\<lfloor>x\<rfloor> + 1 \<le> \<lfloor>y\<rfloor>" by simp
    with round_half_even_bounds(2) [of x] round_half_even_bounds(1) [of y] show ?thesis
      by linarith
  qed
qed


lemma quantum_times:
  "(2::real) ^ 53 * 2 powi (e - 52) = 2 powi (e + 1)"
  "(2::real) ^ 52 * 2 powi (e - 52) = 2 powi e"
proof -
  have "(2::real) powi (53 + (e - 52)) = 2 powi 53 * 2 powi (e - 52)"
    by (rule power_int_add) simp
  then show "(2::real) ^ 53 * 2 powi (e - 52) = 2 powi (e + 1)"
    by (simp add: algebra_simps)
  have "(2::real) powi (52 + (e - 52)) = 2 powi 52 * 2 powi (e - 52)"
    by (rule power_int_add) simp
  then show "(2::real) ^ 52 * 2 powi (e - 52) = 2 powi e"
    by simp
qed

lemma rounded_upper:
  assumes "0 < a" and "exponent a < 1023"
  shows "of_int (round_half_even (a / 2 powi (exponent a - 52))) * (2::real) powi (exponent a - 52)
    \<le> 2 powi (exponent a + 1)"
proof -
  let ?q = "(2::real) powi (exponent a - 52)"
  have q: "0 < ?q" by simp
  from exponent_upper [OF assms(2)] have "a < 2 ^ 53 * ?q" by (simp only: quantum_times)
  with q have "a / ?q < 2 ^ 53" by (simp add: pos_divide_less_eq)
  then have "a / ?q < of_int (2 ^ 53)" by simp
  then have "\<lfloor>a / ?q\<rfloor> < 2 ^ 53" by (simp only: floor_less_iff)
  with round_half_even_bounds(2) [of "a / ?q"] have "round_half_even (a / ?q) \<le> 2 ^ 53"
    by linarith
  then have "(of_int (round_half_even (a / ?q)) :: real) \<le> of_int (2 ^ 53)"
    by (simp only: of_int_le_iff)
  then have "of_int (round_half_even (a / ?q)) * ?q \<le> 2 ^ 53 * ?q"
    using q by (simp add: mult_right_mono)
  then show ?thesis by (simp only: quantum_times)
qed

lemma rounded_lower:
  assumes "- 1022 < exponent b"
  shows "(2::real) powi exponent b
    \<le> of_int (round_half_even (b / 2 powi (exponent b - 52))) * 2 powi (exponent b - 52)"
proof -
  let ?q = "(2::real) powi (exponent b - 52)"
  have q: "0 < ?q" by simp
  from exponent_lower [OF assms] have "2 ^ 52 * ?q \<le> b" by (simp only: quantum_times)
  with q have "2 ^ 52 \<le> b / ?q" by (simp add: pos_le_divide_eq)
  then have "of_int (2 ^ 52) \<le> b / ?q" by simp
  then have "2 ^ 52 \<le> \<lfloor>b / ?q\<rfloor>" by (simp only: le_floor_iff)
  with round_half_even_bounds(1) [of "b / ?q"] have "2 ^ 52 \<le> round_half_even (b / ?q)"
    by linarith
  then have "(of_int (2 ^ 52) :: real) \<le> of_int (round_half_even (b / ?q))"
    by (simp only: of_int_le_iff)
  then have "2 ^ 52 * ?q \<le> of_int (round_half_even (b / ?q)) * ?q"
    using q by (simp add: mult_right_mono)
  then show ?thesis by (simp only: quantum_times)
qed

lemma rounded_mono:
  assumes "0 < a" and "a \<le> b"
  shows "of_int (round_half_even (a / 2 powi (exponent a - 52))) * (2::real) powi (exponent a - 52)
    \<le> of_int (round_half_even (b / 2 powi (exponent b - 52))) * 2 powi (exponent b - 52)"
proof (cases "exponent a = exponent b")
  case True
  let ?q = "(2::real) powi (exponent b - 52)"
  have q: "0 < ?q" by simp
  from assms(2) q have "a / ?q \<le> b / ?q" by (simp add: divide_right_mono)
  then have "round_half_even (a / ?q) \<le> round_half_even (b / ?q)"
    by (rule round_half_even_mono)
  then have "(of_int (round_half_even (a / ?q)) :: real) \<le> of_int (round_half_even (b / ?q))"
    by (simp only: of_int_le_iff)
  with q True show ?thesis by (simp add: mult_right_mono)
next
  case False
  with exponent_mono [OF assms(2)] have lt: "exponent a < exponent b" by simp
  with exponent_bounds [of a] exponent_bounds [of b]
  have "exponent a < 1023" "- 1022 < exponent b" by simp_all
  note u = rounded_upper [OF assms(1) this(1)] and l = rounded_lower [OF this(2)]
  from lt have "(2::real) powi (exponent a + 1) \<le> 2 powi exponent b"
    by (intro power_int_increasing) simp_all
  with u l show ?thesis by linarith
qed

lemma rounded_nonneg:
  assumes "0 < a"
  shows "0 \<le> of_int (round_half_even (a / 2 powi (exponent a - 52))) * (2::real) powi (exponent a - 52)"
proof -
  let ?q = "(2::real) powi (exponent a - 52)"
  from assms have "0 \<le> a / ?q" by simp
  then have "0 \<le> \<lfloor>a / ?q\<rfloor>" by simp
  with round_half_even_bounds(1) [of "a / ?q"] have "0 \<le> round_half_even (a / ?q)" by linarith
  then show ?thesis by simp
qed

lemma round_magnitude_mono:
  "0 < a \<Longrightarrow> a \<le> b \<Longrightarrow> float_le (round_magnitude a) (round_magnitude b)"
  using rounded_mono [of a b] by (auto simp: round_magnitude_def Let_def)

lemma round_magnitude_nonneg: "0 < a \<Longrightarrow> float_le (Finite 0) (round_magnitude a)"
  using rounded_nonneg [of a] by (auto simp: round_magnitude_def Let_def)

lemma binary64_zero: "binary64 0 = Finite 0"
  by (simp add: binary64_def)

lemma binary64_nonneg: "0 \<le> x \<Longrightarrow> float_le (Finite 0) (binary64 x)"
  by (auto simp: binary64_def round_magnitude_nonneg)

lemma binary64_mono: "0 \<le> x \<Longrightarrow> x \<le> y \<Longrightarrow> float_le (binary64 x) (binary64 y)"
  by (auto simp: binary64_def round_magnitude_nonneg round_magnitude_mono)

lemma binary64_not_nan: "binary64 x \<noteq> NaN"
  by (auto simp: binary64_def round_magnitude_def Let_def)

lemma exponent_one: "exponent 1 = 0"
  by (rule exponent_eq) simp_all

lemma binary64_of_nat:
  assumes "0 < n" and "n < 2 ^ 53"
  shows "binary64 (real n) = Finite (real n)"
proof -
  let ?a = "real n"
  let ?e = "exponent ?a"
  from assms(1) have a: "1 \<le> ?a" by simp
  from exponent_mono [OF a] have e0: "0 \<le> ?e" by (simp add: exponent_one)
  have e52: "?e \<le> 52"
  proof (rule ccontr)
    assume "\<not> ?e \<le> 52"
    then have l: "53 \<le> ?e" by simp
    then have "2 powi ?e \<le> ?a" by (intro exponent_lower) simp
    moreover from l have "(2::real) powi 53 \<le> 2 powi ?e"
      by (intro power_int_increasing) simp_all
    ultimately have "(2::real) ^ 53 \<le> ?a" by simp
    then have "(2::nat) ^ 53 \<le> n" by (metis of_nat_le_iff of_nat_numeral of_nat_power)
    with assms(2) show False by simp
  qed
  define k where "k = nat (52 - ?e)"
  from e0 e52 have "?e - 52 = - int k" by (simp add: k_def)
  then have q: "(2::real) powi (?e - 52) = inverse (2 ^ k)"
    by (simp add: power_int_minus)
  have "?a / inverse (2 ^ k) = of_int (int n * 2 ^ k)" by (simp add: field_simps)
  then have r: "round_half_even (?a / inverse (2 ^ k)) = int n * 2 ^ k"
    by (simp only: round_half_even_of_int)
  have y: "of_int (round_half_even (?a / 2 powi (?e - 52))) * 2 powi (?e - 52) = ?a"
    by (simp add: q r)
  from assms(2) have "?a < 2 ^ 53" by (metis of_nat_less_iff of_nat_numeral of_nat_power)
  also have "(2::real) ^ 53 \<le> 2 ^ 1024" by (rule power_increasing) simp_all
  finally have "?a < 2 ^ 1024" .
  with assms(1) y show ?thesis
    by (simp add: binary64_def round_magnitude_def Let_def)
qed

lemma binary64_small:
  "binary64 1 = Finite 1" "binary64 2 = Finite 2" "binary64 3 = Finite 3"
  using binary64_of_nat [of 1] binary64_of_nat [of 2] binary64_of_nat [of 3] by simp_all

lemma binary64_rounds: "binary64 (10000000000000000 - 1) = Finite 10000000000000000"
proof -
  have e: "exponent 9999999999999999 = 53" by (rule exponent_eq) simp_all
  have r: "round_half_even (9999999999999999 / 2) = 5000000000000000"
    by (simp add: round_half_even_def)
  show ?thesis by (simp add: binary64_def round_magnitude_def e r)
qed

text \<open>The subtraction rounds: \<open>1e16 - 1.0\<close> is \<open>1e16\<close>.\<close>

lemma float_sub_rounds:
  "float_sub (Finite 10000000000000000) (Finite 1) = Finite 10000000000000000"
  using binary64_rounds by simp

subsection \<open>Sorting\<close>

lemma rank_lt: "a \<noteq> NaN \<Longrightarrow> b \<noteq> NaN \<Longrightarrow> float_lt a b \<longleftrightarrow> rank a < rank b"
  by (cases a; cases b) simp_all

lemma rank_le: "a \<noteq> NaN \<Longrightarrow> b \<noteq> NaN \<Longrightarrow> float_le a b \<longleftrightarrow> rank a \<le> rank b"
  by (cases a; cases b) simp_all

lemma rank_eq: "a \<noteq> NaN \<Longrightarrow> b \<noteq> NaN \<Longrightarrow> rank a = rank b \<longleftrightarrow> a = b"
  by (cases a; cases b) simp_all

lemma bisect_unfold:
  "l < r \<Longrightarrow> float_lt (key pivot) (key (xs ! (l + (r - l) div 2))) \<Longrightarrow>
     bisect key pivot xs l r = bisect key pivot xs l (l + (r - l) div 2)"
  "l < r \<Longrightarrow> \<not> float_lt (key pivot) (key (xs ! (l + (r - l) div 2))) \<Longrightarrow>
     bisect key pivot xs l r = bisect key pivot xs (Suc (l + (r - l) div 2)) r"
  "\<not> l < r \<Longrightarrow> bisect key pivot xs l r = l"
  by (subst bisect.simps, simp)+

lemma bisect_spec:
  fixes f :: "'a \<Rightarrow> 'r::linorder"
  shows "(\<And>y. y \<in> set xs \<Longrightarrow> float_lt (key pivot) (key y) \<longleftrightarrow> f pivot < f y) \<Longrightarrow>
    sorted (map f xs) \<Longrightarrow> l \<le> r \<Longrightarrow> r \<le> length xs \<Longrightarrow>
    (\<forall>i<l. f (xs ! i) \<le> f pivot) \<Longrightarrow>
    (\<forall>i. r \<le> i \<and> i < length xs \<longrightarrow> f pivot < f (xs ! i)) \<Longrightarrow>
    l \<le> bisect key pivot xs l r \<and> bisect key pivot xs l r \<le> r \<and>
    (\<forall>i<bisect key pivot xs l r. f (xs ! i) \<le> f pivot) \<and>
    (\<forall>i. bisect key pivot xs l r \<le> i \<and> i < length xs \<longrightarrow> f pivot < f (xs ! i))"
proof (induction key pivot xs l r rule: bisect.induct)
  case (1 key pivot xs l r)
  note lt = "1.prems"(1) and srt = "1.prems"(2)
  show ?case
  proof (cases "l < r")
    case False
    with "1.prems"(3-6) show ?thesis by (simp add: bisect_unfold(3))
  next
    case True
    define p where "p = l + (r - l) div 2"
    from True have p: "l \<le> p" "p < r" by (simp_all add: p_def)
    with "1.prems"(4) have pl: "p < length xs" by simp
    have mono: "f (xs ! i) \<le> f (xs ! j)" if "i \<le> j" "j < length xs" for i j
      using sorted_nth_mono [OF srt, of i j] that by simp
    show ?thesis
    proof (cases "float_lt (key pivot) (key (xs ! p))")
      case lower: True
      with lt [of "xs ! p"] pl have fp: "f pivot < f (xs ! p)" by simp
      have B: "\<forall>i. p \<le> i \<and> i < length xs \<longrightarrow> f pivot < f (xs ! i)"
      proof (intro allI impI)
        fix i assume "p \<le> i \<and> i < length xs"
        then have "f (xs ! p) \<le> f (xs ! i)" by (intro mono) simp_all
        with fp show "f pivot < f (xs ! i)" by simp
      qed
      from p pl have "p \<le> length xs" by simp
      from "1.IH"(1) [OF True p_def lower lt srt p(1) this "1.prems"(5) B]
      have "l \<le> bisect key pivot xs l p \<and> bisect key pivot xs l p \<le> p \<and>
        (\<forall>i<bisect key pivot xs l p. f (xs ! i) \<le> f pivot) \<and>
        (\<forall>i. bisect key pivot xs l p \<le> i \<and> i < length xs \<longrightarrow> f pivot < f (xs ! i))" .
      moreover have "bisect key pivot xs l r = bisect key pivot xs l p"
        using True lower unfolding p_def by (rule bisect_unfold(1))
      ultimately show ?thesis using p(2) by simp
    next
      case upper: False
      with lt [of "xs ! p"] pl have fp: "f (xs ! p) \<le> f pivot" by simp
      have A: "\<forall>i<Suc p. f (xs ! i) \<le> f pivot"
      proof (intro allI impI)
        fix i assume "i < Suc p"
        then have "f (xs ! i) \<le> f (xs ! p)" using pl by (intro mono) simp_all
        with fp show "f (xs ! i) \<le> f pivot" by simp
      qed
      from p have "Suc p \<le> r" by simp
      from "1.IH"(2) [OF True p_def upper lt srt this "1.prems"(4) A "1.prems"(6)]
      have "Suc p \<le> bisect key pivot xs (Suc p) r \<and> bisect key pivot xs (Suc p) r \<le> r \<and>
        (\<forall>i<bisect key pivot xs (Suc p) r. f (xs ! i) \<le> f pivot) \<and>
        (\<forall>i. bisect key pivot xs (Suc p) r \<le> i \<and> i < length xs \<longrightarrow> f pivot < f (xs ! i))" .
      moreover have "bisect key pivot xs l r = bisect key pivot xs (Suc p) r"
        using True upper unfolding p_def by (rule bisect_unfold(2))
      ultimately show ?thesis using p(1) by simp
    qed
  qed
qed


lemma insert_at_bisect:
  fixes f :: "'a \<Rightarrow> 'r::linorder"
  assumes lt: "\<And>y. y \<in> set xs \<Longrightarrow> float_lt (key pivot) (key y) \<longleftrightarrow> f pivot < f y"
    and srt: "sorted (map f xs)"
  defines "pos \<equiv> bisect key pivot xs 0 (length xs)"
  shows "sorted (map f (take pos xs @ pivot # drop pos xs))"
    and "filter (\<lambda>x. f x = v) (take pos xs @ pivot # drop pos xs) =
         filter (\<lambda>x. f x = v) (xs @ [pivot])"
    and "mset (take pos xs @ pivot # drop pos xs) = mset (xs @ [pivot])"
proof -
  have A: "\<forall>i<0. f (xs ! i) \<le> f pivot"
    and B: "\<forall>i. length xs \<le> i \<and> i < length xs \<longrightarrow> f pivot < f (xs ! i)"
    by auto
  from bisect_spec [of xs key pivot f 0 "length xs", OF lt srt _ _ A B]
  have before: "\<And>i. i < pos \<Longrightarrow> f (xs ! i) \<le> f pivot"
    and after: "\<And>i. pos \<le> i \<Longrightarrow> i < length xs \<Longrightarrow> f pivot < f (xs ! i)"
    and le: "pos \<le> length xs"
    by (simp_all add: pos_def)
  have t: "f x \<le> f pivot" if "x \<in> set (take pos xs)" for x
  proof -
    from that obtain i where "i < length (take pos xs)" "take pos xs ! i = x"
      by (auto simp: in_set_conv_nth)
    then have "i < pos" "x = xs ! i" by simp_all
    with before show ?thesis by simp
  qed
  have d: "f pivot < f x" if "x \<in> set (drop pos xs)" for x
  proof -
    from that obtain i where "i < length (drop pos xs)" "drop pos xs ! i = x"
      by (auto simp: in_set_conv_nth)
    then have "pos \<le> pos + i" "pos + i < length xs" "x = xs ! (pos + i)" using le by simp_all
    with after show ?thesis by simp
  qed
  from srt have "sorted (map f (take pos xs @ drop pos xs))" by simp
  then have "sorted (map f (take pos xs))" "sorted (map f (drop pos xs))"
    by (simp_all only: map_append sorted_append)
  with t d show "sorted (map f (take pos xs @ pivot # drop pos xs))"
    by (auto simp: sorted_append less_imp_le intro: order_trans [OF _ less_imp_le])
  have "filter (\<lambda>x. f x = v) (drop pos xs) = []" if "f pivot = v"
  proof -
    have "f x \<noteq> v" if "x \<in> set (drop pos xs)" for x
      using d [OF that] \<open>f pivot = v\<close> by simp
    then show ?thesis by (simp add: filter_empty_conv)
  qed
  moreover have "filter (\<lambda>x. f x = v) xs =
      filter (\<lambda>x. f x = v) (take pos xs) @ filter (\<lambda>x. f x = v) (drop pos xs)"
    by (metis append_take_drop_id filter_append)
  ultimately show "filter (\<lambda>x. f x = v) (take pos xs @ pivot # drop pos xs) =
         filter (\<lambda>x. f x = v) (xs @ [pivot])"
    by auto
  have "mset xs = mset (take pos xs) + mset (drop pos xs)"
    by (metis append_take_drop_id mset_append)
  then show "mset (take pos xs @ pivot # drop pos xs) = mset (xs @ [pivot])" by simp
qed

lemma binarysort_spec:
  fixes f :: "'a \<Rightarrow> 'r::linorder"
  assumes lt: "\<And>x y. x \<in> set (done @ rest) \<Longrightarrow> y \<in> set (done @ rest) \<Longrightarrow>
      float_lt (key x) (key y) \<longleftrightarrow> f x < f y"
    and srt: "sorted (map f done)"
  shows "sorted (map f (binarysort key done rest)) \<and>
    mset (binarysort key done rest) = mset (done @ rest) \<and>
    (\<forall>v. filter (\<lambda>x. f x = v) (binarysort key done rest) = filter (\<lambda>x. f x = v) (done @ rest))"
  using assms
proof (induction rest arbitrary: "done")
  case Nil
  then show ?case by simp
next
  case (Cons pivot rest)
  let ?pos = "bisect key pivot done 0 (length done)"
  let ?next = "take ?pos done @ pivot # drop ?pos done"
  have lt1: "\<And>y. y \<in> set done \<Longrightarrow> float_lt (key pivot) (key y) \<longleftrightarrow> f pivot < f y"
    using Cons.prems(1) by simp
  note ins = insert_at_bisect [of "done" key pivot f, OF lt1 Cons.prems(2)]
  have set_next: "set ?next = set (done @ [pivot])"
    using ins(3) by (metis set_mset_mset)
  have "\<And>x y. x \<in> set (?next @ rest) \<Longrightarrow> y \<in> set (?next @ rest) \<Longrightarrow>
      float_lt (key x) (key y) \<longleftrightarrow> f x < f y"
  proof -
    fix x y assume "x \<in> set (?next @ rest)" "y \<in> set (?next @ rest)"
    then have "x \<in> set (done @ pivot # rest)" "y \<in> set (done @ pivot # rest)"
      using set_next by auto
    then show "float_lt (key x) (key y) \<longleftrightarrow> f x < f y" by (rule Cons.prems(1))
  qed
  from Cons.IH [OF this ins(1)]
  have "sorted (map f (binarysort key ?next rest))"
    "mset (binarysort key ?next rest) = mset (?next @ rest)"
    "\<And>v. filter (\<lambda>x. f x = v) (binarysort key ?next rest) = filter (\<lambda>x. f x = v) (?next @ rest)"
    by blast+
  note ih = this
  have step: "binarysort key done (pivot # rest) = binarysort key ?next rest"
    by (simp add: Let_def)
  have "mset (?next @ rest) = mset (done @ pivot # rest)"
    using ins(3) by simp
  moreover have "filter (\<lambda>x. f x = v) (?next @ rest) = filter (\<lambda>x. f x = v) (done @ pivot # rest)"
    for v
  proof -
    have "filter (\<lambda>x. f x = v) (?next @ rest) =
        filter (\<lambda>x. f x = v) ?next @ filter (\<lambda>x. f x = v) rest"
      by (rule filter_append)
    also have "filter (\<lambda>x. f x = v) ?next = filter (\<lambda>x. f x = v) (done @ [pivot])"
      by (rule ins(2))
    finally show ?thesis by simp
  qed
  ultimately show ?case using ih unfolding step by simp
qed


lemma ascending_run_sorted:
  fixes f :: "'a \<Rightarrow> 'r::linorder"
  shows "(\<And>x y. x \<in> set (prev # xs) \<Longrightarrow> y \<in> set (prev # xs) \<Longrightarrow>
      float_lt (key x) (key y) \<longleftrightarrow> f x < f y) \<Longrightarrow>
    sorted (map f (prev # take (ascending_run key prev xs) xs))"
proof (induction xs arbitrary: prev)
  case Nil
  then show ?case by simp
next
  case (Cons x xs)
  show ?case
  proof (cases "float_lt (key x) (key prev)")
    case True
    then show ?thesis by simp
  next
    case False
    with Cons.prems [of x prev] have "f prev \<le> f x" by simp
    moreover have "sorted (map f (x # take (ascending_run key x xs) xs))"
      by (rule Cons.IH) (rule Cons.prems, simp_all)
    ultimately show ?thesis using False by auto
  qed
qed

lemma descending_run_sorted:
  fixes f :: "'a \<Rightarrow> 'r::linorder"
  shows "(\<And>x y. x \<in> set (prev # xs) \<Longrightarrow> y \<in> set (prev # xs) \<Longrightarrow>
      float_lt (key x) (key y) \<longleftrightarrow> f x < f y) \<Longrightarrow>
    sorted_wrt (\<lambda>a b. f b < f a) (prev # take (descending_run key prev xs) xs)"
proof (induction xs arbitrary: prev)
  case Nil
  then show ?case by simp
next
  case (Cons x xs)
  have tr: "transp (\<lambda>a b. f b < f a)" by (rule transpI) simp
  show ?case
  proof (cases "float_lt (key x) (key prev)")
    case False
    then show ?thesis by simp
  next
    case True
    with Cons.prems [of x prev] have "f x < f prev" by simp
    moreover have "sorted_wrt (\<lambda>a b. f b < f a) (x # take (descending_run key x xs) xs)"
      by (rule Cons.IH) (rule Cons.prems, simp_all)
    ultimately show ?thesis using True by (simp only: descending_run.simps if_True take_Suc_Cons sorted_wrt2 [OF tr] simp_thms)
  qed
qed

lemma filter_key_distinct:
  "distinct (map f xs) \<Longrightarrow>
   filter (\<lambda>x. f x = v) xs = [] \<or> (\<exists>x. filter (\<lambda>x. f x = v) xs = [x])"
proof (induction xs)
  case Nil
  then show ?case by simp
next
  case (Cons a xs)
  show ?case
  proof (cases "f a = v")
    case True
    from Cons.prems have "f a \<notin> f ` set xs" by simp
    with True have "\<forall>x\<in>set xs. f x \<noteq> v" by blast
    then have "filter (\<lambda>x. f x = v) xs = []" by (simp add: filter_empty_conv)
    with True show ?thesis by simp
  next
    case False
    with Cons show ?thesis by simp
  qed
qed

lemma filter_rev_distinct:
  assumes "distinct (map f xs)"
  shows "filter (\<lambda>x. f x = v) (rev xs) = filter (\<lambda>x. f x = v) xs"
proof -
  have "filter (\<lambda>x. f x = v) (rev xs) = rev (filter (\<lambda>x. f x = v) xs)"
    by (simp add: rev_filter)
  with filter_key_distinct [OF assms, of v] show ?thesis by auto
qed

lemma list_sort_eq_sort_key:
  fixes f :: "'a \<Rightarrow> 'r::linorder"
  assumes lt: "\<And>x y. x \<in> set xs \<Longrightarrow> y \<in> set xs \<Longrightarrow> float_lt (key x) (key y) \<longleftrightarrow> f x < f y"
  shows "list_sort key xs = sort_key f xs"
proof -
  obtain n descending where cr: "count_run key xs = (n, descending)"
    by (cases "count_run key xs") auto
  define run where "run = (if descending then rev (take n xs) else take n xs)"
  have ls: "list_sort key xs = binarysort key run (drop n xs)"
    by (simp add: list_sort_def cr run_def)
  have run: "sorted (map f run) \<and> mset run = mset (take n xs) \<and>
      (\<forall>v. filter (\<lambda>x. f x = v) run = filter (\<lambda>x. f x = v) (take n xs))"
  proof (cases xs)
    case Nil
    with cr show ?thesis by (auto simp: run_def)
  next
    case (Cons x xs')
    show ?thesis
    proof (cases xs')
      case Nil
      with Cons cr show ?thesis by (auto simp: run_def)
    next
      case (Cons y ys)
      note xs = \<open>xs = x # xs'\<close> Cons
      have lt': "\<And>a b. a \<in> set (y # ys) \<Longrightarrow> b \<in> set (y # ys) \<Longrightarrow>
          float_lt (key a) (key b) \<longleftrightarrow> f a < f b"
        by (rule lt) (simp_all add: xs)
      show ?thesis
      proof (cases "float_lt (key y) (key x)")
        case True
        with cr xs have n: "n = 2 + descending_run key y ys" and d: "descending" by simp_all
        let ?m = "descending_run key y ys"
        have tk: "take n xs = x # y # take ?m ys" by (simp add: n xs)
        have tr: "transp (\<lambda>a b. f b < f a)" by (rule transpI) simp
        from True lt [of y x] have "f y < f x" by (simp add: xs)
        with descending_run_sorted [of y ys key f, OF lt']
        have "sorted_wrt (\<lambda>a b. f b < f a) (take n xs)"
          by (simp only: tk sorted_wrt2 [OF tr] simp_thms)
        then have "sorted_wrt (\<lambda>a b. f a < f b) (rev (take n xs))"
          by (simp add: sorted_wrt_rev)
        then have "sorted_wrt (<) (map f (rev (take n xs)))"
          by (simp only: sorted_wrt_map)
        then have sd: "sorted (map f (rev (take n xs)))" "distinct (map f (rev (take n xs)))"
          by (simp_all only: strict_sorted_iff)
        from sd(2) have "distinct (map f (take n xs))"
          by (simp only: rev_map [symmetric] distinct_rev)
        from filter_rev_distinct [OF this] sd(1) d show ?thesis
          by (simp add: run_def)
      next
        case False
        with cr xs have n: "n = 2 + ascending_run key y ys" and d: "\<not> descending" by simp_all
        let ?m = "ascending_run key y ys"
        have tk: "take n xs = x # y # take ?m ys" by (simp add: n xs)
        from False lt [of y x] have "f x \<le> f y" by (simp add: xs)
        with ascending_run_sorted [of y ys key f, OF lt']
        have "sorted (map f (take n xs))" by (auto simp: tk)
        with d show ?thesis by (simp add: run_def)
      qed
    qed
  qed
  have set_run: "set run = set (take n xs)" using run by (metis set_mset_mset)
  have lt2: "\<And>a b. a \<in> set (run @ drop n xs) \<Longrightarrow> b \<in> set (run @ drop n xs) \<Longrightarrow>
      float_lt (key a) (key b) \<longleftrightarrow> f a < f b"
  proof -
    fix a b assume "a \<in> set (run @ drop n xs)" "b \<in> set (run @ drop n xs)"
    then have "a \<in> set (take n xs) \<union> set (drop n xs)" "b \<in> set (take n xs) \<union> set (drop n xs)"
      using set_run by auto
    then have "a \<in> set xs" "b \<in> set xs"
      by (auto dest: in_set_takeD in_set_dropD)
    then show "float_lt (key a) (key b) \<longleftrightarrow> f a < f b" by (rule lt)
  qed
  from binarysort_spec [of run "drop n xs" key f, OF lt2] run
  have r: "sorted (map f (list_sort key xs))"
    "mset (list_sort key xs) = mset (run @ drop n xs)"
    "\<And>v. filter (\<lambda>x. f x = v) (list_sort key xs) = filter (\<lambda>x. f x = v) (run @ drop n xs)"
    unfolding ls by blast+
  have m: "mset (list_sort key xs) = mset xs"
  proof -
    have "mset (run @ drop n xs) = mset (take n xs) + mset (drop n xs)" using run by simp
    also have "\<dots> = mset (take n xs @ drop n xs)" by (simp only: mset_append)
    also have "\<dots> = mset xs" by (simp only: append_take_drop_id)
    finally show ?thesis using r(2) by simp
  qed
  have st: "filter (\<lambda>x. f x = v) (list_sort key xs) = filter (\<lambda>x. f x = v) xs" for v
  proof -
    have "filter (\<lambda>x. f x = v) (run @ drop n xs) =
        filter (\<lambda>x. f x = v) (take n xs) @ filter (\<lambda>x. f x = v) (drop n xs)"
      using run by simp
    also have "\<dots> = filter (\<lambda>x. f x = v) (take n xs @ drop n xs)" by (simp only: filter_append)
    also have "\<dots> = filter (\<lambda>x. f x = v) xs" by (simp only: append_take_drop_id)
    finally show ?thesis using r(3) by simp
  qed
  have "sort_key f xs = list_sort key xs"
  proof (rule properties_for_sort_key [OF m _ r(1)])
    fix k
    have "(\<lambda>x. f k = f x) = (\<lambda>x. f x = f k)" by auto
    then show "filter (\<lambda>x. f k = f x) (list_sort key xs) = filter (\<lambda>x. f k = f x) xs"
      using st [of "f k"] by simp
  qed
  then show ?thesis by simp
qed

lemma list_sort_rank:
  assumes "\<forall>x\<in>set xs. key x \<noteq> NaN"
  shows "list_sort key xs = sort_key (\<lambda>x. rank (key x)) xs"
  by (rule list_sort_eq_sort_key) (use assms in \<open>simp add: rank_lt\<close>)

subsection \<open>What get\_stream\_delay can raise\<close>

lemma subscript_truthy: "subscript s k = Inr x \<Longrightarrow> truthy s"
  by (cases s) (auto split: option.splits)

lemma subscript_error: "subscript s k = Inl err \<Longrightarrow> err = TypeError \<or> err = KeyError k"
  by (cases s) (auto split: option.splits)

lemma iterate_error: "iterate v = Inl err \<Longrightarrow> err = TypeError"
  by (cases v) auto

lemma first_video_truthy: "first_video ss = Inr v \<Longrightarrow> truthy v"
  by (induction ss) (auto split: sum.splits if_splits dest: subscript_truthy)

lemma first_video_error:
  "first_video ss = Inl err \<Longrightarrow>
     err = StopIteration \<or> err = TypeError \<or> err = KeyError ''codec_type''"
  by (induction ss) (auto split: sum.splits if_splits dest: subscript_error)

lemma py_float_error:
  "py_float e v = Inl err \<Longrightarrow>
     err = TypeError \<or> err = ValueError ''could not convert string to float''"
  by (cases v) (auto split: option.splits)

lemma delay_of_probe_error:
  "delay_of_probe e pr = Inl err \<Longrightarrow>
     err = StopIteration \<or> err = TypeError \<or> (\<exists>k. err = KeyError k) \<or>
     err = ValueError ''could not convert string to float''"
  unfolding delay_of_probe_def
  by (auto split: sum.splits if_splits
      dest: subscript_error iterate_error first_video_error first_video_truthy py_float_error)

lemma probed_delay_error:
  "probed_delay e n = Inl err \<Longrightarrow>
     err = ProbeFailure \<or> err = StopIteration \<or> err = TypeError \<or> (\<exists>k. err = KeyError k) \<or>
     err = ValueError ''could not convert string to float''"
  unfolding probed_delay_def
  by (auto split: option.splits dest: delay_of_probe_error)

text \<open>
  A probe answer whose streams all have a \<open>codec_type\<close> other than \<open>video\<close> makes
  \<open>next\<close> raise \<open>StopIteration\<close>, which leaves \<open>get_stream_delay\<close> as it is.
\<close>

lemma first_video_none:
  "\<forall>s\<in>set ss. \<exists>v. subscript s ''codec_type'' = Inr v \<and> v \<noteq> JStr ''video'' \<Longrightarrow>
   first_video ss = Inl StopIteration"
  by (induction ss) auto

lemma no_video_stream_stops:
  assumes "probe e stream_name = Some (JDict d)"
    and "map_of d ''streams'' = Some (JList ss)"
    and "\<forall>s\<in>set ss. \<exists>v. subscript s ''codec_type'' = Inr v \<and> v \<noteq> JStr ''video''"
  shows "fst (get_stream_delay e stream_name w) = Inl StopIteration"
  using assms(1,2) first_video_none [OF assms(3)]
  by (simp add: get_stream_delay_def probed_delay_def delay_of_probe_def)

text \<open>
  Claim C10. In \<open>get_stream_delay\<close> the branch raising \<open>ValueError("No video stream found")\<close>
  is dead: whatever the probe answers, the call never raises it. A stream that \<open>next\<close>
  returns has passed the test on its \<open>codec_type\<close>, so it is a dictionary with at least that
  key and is true (\<open>first_video_truthy\<close>); with no such stream \<open>next\<close> has already raised
  \<open>StopIteration\<close> (\<open>first_video_error\<close>).
\<close>

theorem no_video_guard_unreachable:
  "fst (get_stream_delay e stream_name w) \<noteq> Inl (ValueError ''No video stream found'')"
proof
  assume "fst (get_stream_delay e stream_name w) = Inl (ValueError ''No video stream found'')"
  then have "probed_delay e stream_name = Inl (ValueError ''No video stream found'')"
    by (simp add: get_stream_delay_def)
  from probed_delay_error [OF this] show False by simp
qed

subsection \<open>The queue that create\_queue builds\<close>

lemma best_in:
  "foldl (\<lambda>best y. if float_lt (f y) (f best) then y else best) x xs \<in> set (x # xs)"
  by (induction xs arbitrary: x) auto

lemma best_le:
  fixes g :: "'a \<Rightarrow> 'r::linorder"
  shows "(\<And>a b. a \<in> set (x # xs) \<Longrightarrow> b \<in> set (x # xs) \<Longrightarrow>
      float_lt (f a) (f b) \<longleftrightarrow> g a < g b) \<Longrightarrow>
    p \<in> set (x # xs) \<Longrightarrow>
    g (foldl (\<lambda>best y. if float_lt (f y) (f best) then y else best) x xs) \<le> g p"
proof (induction xs arbitrary: x p)
  case Nil
  then show ?case by simp
next
  case (Cons y ys)
  let ?x' = "if float_lt (f y) (f x) then y else x"
  have lt: "float_lt (f y) (f x) \<longleftrightarrow> g y < g x" by (rule Cons.prems(1)) simp_all
  have step: "g (foldl (\<lambda>best y. if float_lt (f y) (f best) then y else best) ?x' ys) \<le> g q"
    if "q \<in> set (?x' # ys)" for q
  proof (rule Cons.IH [OF _ that])
    fix a b assume "a \<in> set (?x' # ys)" "b \<in> set (?x' # ys)"
    then have "a \<in> set (x # y # ys)" "b \<in> set (x # y # ys)" by (auto split: if_splits)
    then show "float_lt (f a) (f b) \<longleftrightarrow> g a < g b" by (rule Cons.prems(1))
  qed
  have x': "g ?x' \<le> g x" "g ?x' \<le> g y" using lt by auto
  have first: "g (foldl (\<lambda>best y. if float_lt (f y) (f best) then y else best) ?x' ys) \<le> g ?x'"
    by (rule step) simp
  from Cons.prems(2) consider "p = x" | "p = y" | "p \<in> set ys" by auto
  then show ?case
  proof cases
    case 1
    with first x'(1) show ?thesis by simp
  next
    case 2
    with first x'(2) show ?thesis by simp
  next
    case 3
    then have "g (foldl (\<lambda>best y. if float_lt (f y) (f best) then y else best) ?x' ys) \<le> g p"
      by (intro step) simp
    then show ?thesis by simp
  qed
qed

lemma py_min_least:
  assumes "xs \<noteq> []" and "\<forall>x\<in>set xs. f x \<noteq> NaN"
  shows "\<exists>least. py_min f xs = Inr least \<and> least \<in> set xs \<and>
    (\<forall>p\<in>set xs. rank (f least) \<le> rank (f p))"
proof -
  from assms(1) obtain y ys where xs: "xs = y # ys" by (cases xs) auto
  let ?b = "foldl (\<lambda>best z. if float_lt (f z) (f best) then z else best) y ys"
  have "?b \<in> set xs" unfolding xs by (rule best_in)
  moreover have "rank (f ?b) \<le> rank (f p)" if "p \<in> set xs" for p
  proof (rule best_le [where g = "\<lambda>a. rank (f a)"])
    show "p \<in> set (y # ys)" using that by (simp add: xs)
    fix a b assume "a \<in> set (y # ys)" "b \<in> set (y # ys)"
    with assms(2) have "f a \<noteq> NaN" "f b \<noteq> NaN" by (auto simp: xs)
    then show "float_lt (f a) (f b) \<longleftrightarrow> rank (f a) < rank (f b)" by (rule rank_lt)
  qed
  ultimately show ?thesis by (auto simp: xs)
qed

lemma shift_queue_nan_free:
  assumes "queue \<noteq> []" and "\<forall>p\<in>set queue. snd p \<noteq> NaN"
  shows "\<exists>least. least \<in> set queue \<and> (\<forall>p\<in>set queue. rank (snd least) \<le> rank (snd p)) \<and>
    shift_queue queue =
      Inr (map (\<lambda>entry. (fst entry, float_sub (snd entry) (snd least)))
            (sort_key (\<lambda>p. rank (snd p)) queue))"
proof -
  have s: "list_sort snd queue = sort_key (\<lambda>p. rank (snd p)) queue"
    using assms(2) by (intro list_sort_rank) simp
  have "sort_key (\<lambda>p. rank (snd p)) queue \<noteq> []" using assms(1) by (metis length_sort length_0_conv)
  moreover have "\<forall>p\<in>set (sort_key (\<lambda>p. rank (snd p)) queue). snd p \<noteq> NaN"
    using assms(2) by simp
  ultimately obtain least where
    "py_min snd (sort_key (\<lambda>p. rank (snd p)) queue) = Inr least"
    "least \<in> set (sort_key (\<lambda>p. rank (snd p)) queue)"
    "\<forall>p\<in>set (sort_key (\<lambda>p. rank (snd p)) queue). rank (snd least) \<le> rank (snd p)"
    using py_min_least [of "sort_key (\<lambda>p. rank (snd p)) queue" snd] by blast
  then show ?thesis by (intro exI [of _ least]) (simp add: shift_queue_def s)
qed

lemma shift_queue_finite:
  assumes "names \<noteq> []" and "length xs = length names"
  shows "shift_queue (zip names (map Finite xs)) =
      Inr (map (\<lambda>entry. (fst entry, float_sub (snd entry) (Finite (Min (set xs)))))
            (sort_key (\<lambda>p. rank (snd p)) (zip names (map Finite xs))))"
proof -
  let ?queue = "zip names (map Finite xs)"
  from assms have ne: "?queue \<noteq> []" "xs \<noteq> []" by (cases names; cases xs; simp)+
  have snds: "map snd ?queue = map Finite xs" using assms(2) by simp
  then have set_snd: "snd ` set ?queue = Finite ` set xs" by (metis set_map)
  have nn: "\<forall>p\<in>set ?queue. snd p \<noteq> NaN"
  proof
    fix p assume "p \<in> set ?queue"
    then have "snd p \<in> Finite ` set xs" using set_snd by blast
    then show "snd p \<noteq> NaN" by auto
  qed
  from shift_queue_nan_free [OF ne(1) nn] obtain least where
    l: "least \<in> set ?queue" "\<forall>p\<in>set ?queue. rank (snd least) \<le> rank (snd p)"
    and sh: "shift_queue ?queue =
      Inr (map (\<lambda>entry. (fst entry, float_sub (snd entry) (snd least)))
            (sort_key (\<lambda>p. rank (snd p)) ?queue))"
    by blast
  from l(1) set_snd obtain x0 where x0: "x0 \<in> set xs" "snd least = Finite x0" by auto
  have "x0 \<le> x" if "x \<in> set xs" for x
  proof -
    from that set_snd obtain p where "p \<in> set ?queue" "snd p = Finite x" by (metis imageE imageI)
    with l(2) x0(2) show ?thesis by auto
  qed
  with x0(1) have "Min (set xs) = x0" by (intro Min_eqI) auto
  with sh x0(2) show ?thesis by simp
qed

lemma shift_queue_error:
  "shift_queue queue = Inl err \<Longrightarrow> err = ValueError ''min() arg is an empty sequence''"
  unfolding shift_queue_def
  by (cases "list_sort snd queue") (auto simp: Let_def)

lemma probe_all_ok:
  "list_all2 (\<lambda>n d. probed_delay e n = Inr d) ns ds \<Longrightarrow>
   probe_all e ns queue w = (Inr (queue @ zip ns ds), w\<lparr>probed := probed w @ ns\<rparr>)"
proof (induction ns ds arbitrary: queue w rule: list_all2_induct)
  case Nil
  then show ?case by simp
next
  case (Cons n d ns ds)
  then show ?case by (simp add: get_stream_delay_def)
qed

lemma probe_all_fails:
  "\<exists>x\<in>set ns. isl (probed_delay e x) \<Longrightarrow>
   \<exists>pre m post err. ns = pre @ m # post \<and> (\<forall>x\<in>set pre. \<not> isl (probed_delay e x)) \<and>
     probed_delay e m = Inl err \<and>
     probe_all e ns queue w = (Inl err, w\<lparr>probed := probed w @ pre @ [m]\<rparr>)"
proof (induction ns arbitrary: queue w)
  case Nil
  then show ?case by simp
next
  case (Cons n ns)
  show ?case
  proof (cases "probed_delay e n")
    case (Inl err)
    then have "probe_all e (n # ns) queue w = (Inl err, w\<lparr>probed := probed w @ [] @ [n]\<rparr>)"
      by (simp add: get_stream_delay_def)
    with Inl show ?thesis by (intro exI [of _ "[]"] exI [of _ n] exI [of _ ns] exI [of _ err]) simp
  next
    case (Inr d)
    with Cons.prems have "\<exists>x\<in>set ns. isl (probed_delay e x)" by auto
    from Cons.IH [OF this, of "queue @ [(n, d)]" "w\<lparr>probed := probed w @ [n]\<rparr>"]
    obtain pre m post err where h: "ns = pre @ m # post" "\<forall>x\<in>set pre. \<not> isl (probed_delay e x)"
      "probed_delay e m = Inl err"
      "probe_all e ns (queue @ [(n, d)]) (w\<lparr>probed := probed w @ [n]\<rparr>) =
         (Inl err, w\<lparr>probed := probed w @ [n]\<rparr>\<lparr>probed := probed (w\<lparr>probed := probed w @ [n]\<rparr>) @ pre @ [m]\<rparr>)"
      by blast
    from h Inr show ?thesis
      by (intro exI [of _ "n # pre"] exI [of _ m] exI [of _ post] exI [of _ err])
         (simp add: get_stream_delay_def)
  qed
qed

lemma probe_all_probed:
  "probe_all e ns queue w = (Inr queue', w') \<Longrightarrow>
   probed w' = probed w @ ns \<and> map fst queue' = map fst queue @ ns"
proof (induction ns arbitrary: queue w)
  case Nil
  then show ?case by simp
next
  case (Cons n ns)
  then show ?case
    by (cases "probed_delay e n") (auto simp: get_stream_delay_def)
qed

lemma probe_all_error:
  "probe_all e ns queue w = (Inl err, w') \<Longrightarrow> \<exists>n\<in>set ns. probed_delay e n = Inl err"
proof (induction ns arbitrary: queue w)
  case Nil
  then show ?case by simp
next
  case (Cons n ns)
  then show ?case
    by (cases "probed_delay e n") (auto simp: get_stream_delay_def)
qed

text \<open>
  The pairs the queue is built from: the offsets are the given ones, one per stream, or,
  with none given, what the probes return.
\<close>

lemma create_queue_pairs:
  assumes "input_stream_names \<noteq> []"
    and "delays = Some offsets \<and> length offsets = length input_stream_names \<or>
         (delays = None \<or> delays = Some []) \<and>
         list_all2 (\<lambda>n d. probed_delay e n = Inr d) input_stream_names offsets"
  shows "create_queue e input_stream_names delays w =
    (shift_queue (zip input_stream_names offsets),
     case delays of Some (d # ds) \<Rightarrow> w | _ \<Rightarrow> w\<lparr>probed := probed w @ input_stream_names\<rparr>)"
  using assms(2)
proof
  assume a: "delays = Some offsets \<and> length offsets = length input_stream_names"
  with assms(1) obtain d ds where "offsets = d # ds" by (cases offsets) auto
  with a show ?thesis by (simp add: create_queue_def)
next
  assume a: "(delays = None \<or> delays = Some []) \<and>
       list_all2 (\<lambda>n d. probed_delay e n = Inr d) input_stream_names offsets"
  then have "probe_all e input_stream_names [] w =
    (Inr (zip input_stream_names offsets), w\<lparr>probed := probed w @ input_stream_names\<rparr>)"
    using probe_all_ok [of e input_stream_names offsets "[]" w] by simp
  with a show ?thesis by (auto simp: create_queue_def)
qed

lemma zip_finite_elem:
  assumes "p \<in> set (zip names (map Finite xs))"
  obtains x where "x \<in> set xs" and "snd p = Finite x"
proof -
  from assms have "snd p \<in> set (map Finite xs)"
    by (metis in_set_zipE prod.collapse)
  then show ?thesis using that by auto
qed

text \<open>
  Claim C2, as amended. For a non-empty list of streams, each paired with a finite offset
  (the given offsets, one per stream, or the probed ones), \<open>create_queue\<close> returns a queue
  with one entry per stream, holding every stream exactly once with its offset less the
  smallest offset, rounded as the float subtraction rounds it; some delay is 0, no delay is
  below 0, and the delays do not decrease along the queue.
\<close>

theorem create_queue_schedule:
  assumes "input_stream_names \<noteq> []"
    and "delays = Some (map Finite xs) \<and> length xs = length input_stream_names \<or>
         (delays = None \<or> delays = Some []) \<and>
         list_all2 (\<lambda>n x. probed_delay e n = Inr (Finite x)) input_stream_names xs"
  shows "\<exists>queue w'. create_queue e input_stream_names delays w = (Inr queue, w') \<and>
     length queue = length input_stream_names \<and>
     mset (map fst queue) = mset input_stream_names \<and>
     mset queue =
       mset (map (\<lambda>p. (fst p, binary64 (snd p - Min (set xs)))) (zip input_stream_names xs)) \<and>
     Finite 0 \<in> set (map snd queue) \<and>
     (\<forall>d\<in>set (map snd queue). float_le (Finite 0) d) \<and>
     sorted_wrt float_le (map snd queue)"
proof -
  let ?pairs = "zip input_stream_names (map Finite xs)"
  let ?m = "Min (set xs)"
  let ?g = "\<lambda>entry. (fst entry, float_sub (snd entry) (Finite ?m))"
  let ?sorted = "sort_key (\<lambda>p. rank (snd p)) ?pairs"
  let ?q = "map ?g ?sorted"
  have len: "length xs = length input_stream_names"
    using assms(2) by (auto dest: list_all2_lengthD)
  with assms(1) have ne: "xs \<noteq> []" by (cases input_stream_names; cases xs; simp)
  have hyp: "delays = Some (map Finite xs) \<and> length (map Finite xs) = length input_stream_names \<or>
         (delays = None \<or> delays = Some []) \<and>
         list_all2 (\<lambda>n d. probed_delay e n = Inr d) input_stream_names (map Finite xs)"
    using assms(2) by (auto simp: list_all2_map2)
  from create_queue_pairs [OF assms(1) hyp, of w] shift_queue_finite [OF assms(1) len]
  obtain w' where cq: "create_queue e input_stream_names delays w = (Inr ?q, w')" by simp
  have min_le: "?m \<le> x" if "x \<in> set xs" for x using that by simp
  have g: "?g p = (fst p, binary64 (x - ?m))" if "snd p = Finite x" for p x
    using that by simp
  have c1: "length ?q = length input_stream_names" using len by simp
  have "mset (map fst ?q) = mset (map fst ?sorted)" by (simp add: comp_def)
  also have "\<dots> = mset (map fst ?pairs)" by (simp only: mset_map mset_sort)
  also have "map fst ?pairs = input_stream_names" using len by simp
  finally have c2: "mset (map fst ?q) = mset input_stream_names" .
  have "?pairs = map (\<lambda>p. (fst p, Finite (snd p))) (zip input_stream_names xs)"
    by (simp add: zip_map2 case_prod_beta)
  then have "map ?g ?pairs =
      map (\<lambda>p. (fst p, binary64 (snd p - ?m))) (zip input_stream_names xs)"
    by (simp add: comp_def)
  moreover have "mset ?q = mset (map ?g ?pairs)" by (simp only: mset_map mset_sort)
  ultimately have c3: "mset ?q =
      mset (map (\<lambda>p. (fst p, binary64 (snd p - ?m))) (zip input_stream_names xs))"
    by simp
  have c4: "Finite 0 \<in> set (map snd ?q)"
  proof -
    have "?m \<in> set xs" using ne by (intro Min_in) simp_all
    then have "Finite ?m \<in> set (map snd ?pairs)" using len by simp
    then obtain p where p: "p \<in> set ?pairs" "snd p = Finite ?m" by auto
    then have "Finite 0 = snd (?g p)" by (simp add: binary64_zero)
    moreover from p(1) have "?g p \<in> set ?q" by simp
    ultimately have "Finite 0 \<in> snd ` set ?q" by (rule image_eqI)
    then show ?thesis by (simp only: set_map)
  qed
  have c5: "\<forall>d\<in>set (map snd ?q). float_le (Finite 0) d"
  proof
    fix d assume "d \<in> set (map snd ?q)"
    then obtain p where p: "p \<in> set ?pairs" "d = snd (?g p)" by auto
    from p(1) obtain x where x: "x \<in> set xs" "snd p = Finite x" by (rule zip_finite_elem)
    with p(2) have "d = binary64 (x - ?m)" by simp
    with min_le [OF x(1)] show "float_le (Finite 0) d" by (simp add: binary64_nonneg)
  qed
  have c6: "sorted_wrt float_le (map snd ?q)"
  proof -
    have "sorted (map (\<lambda>p. rank (snd p)) ?sorted)" by (rule sorted_sort_key)
    then have "sorted_wrt (\<lambda>a b. rank (snd a) \<le> rank (snd b)) ?sorted"
      by (simp only: sorted_map)
    then have "sorted_wrt (\<lambda>a b. float_le (snd (?g a)) (snd (?g b))) ?sorted"
    proof (rule sorted_wrt_mono_rel [rotated])
      fix a b assume "a \<in> set ?sorted" "b \<in> set ?sorted" and r: "rank (snd a) \<le> rank (snd b)"
      then have "a \<in> set ?pairs" "b \<in> set ?pairs" by simp_all
      then have ab: "a \<in> set ?pairs" "b \<in> set ?pairs" .
      from ab(1) obtain xa where xa: "xa \<in> set xs" "snd a = Finite xa"
        by (rule zip_finite_elem)
      from ab(2) obtain xb where xb: "xb \<in> set xs" "snd b = Finite xb"
        by (rule zip_finite_elem)
      from r have "rank (Finite xa) \<le> rank (Finite xb)" by (simp only: xa(2) xb(2))
      then have "xa \<le> xb" by simp
      with min_le [OF xa(1)] have "float_le (binary64 (xa - ?m)) (binary64 (xb - ?m))"
        by (intro binary64_mono) simp_all
      with xa(2) xb(2) show "float_le (snd (?g a)) (snd (?g b))" by simp
    qed
    then show ?thesis by (simp only: sorted_wrt_map comp_def)
  qed
  from cq c1 c2 c3 c4 c5 c6 show ?thesis by blast
qed

theorem create_queue_schedule_witness:
  "[''camA'', ''camB''] \<noteq> [] \<and> length [3, 1 :: real] = length [''camA'', ''camB''] \<and>
   create_queue example_env [''camA'', ''camB''] (Some [Finite 3, Finite 1]) initial_world =
     (Inr [(''camB'', Finite 0), (''camA'', Finite 2)], initial_world) \<and>
   (\<exists>queue w'. create_queue example_env [''camA'', ''camB''] (Some [Finite 3, Finite 1])
        initial_world = (Inr queue, w') \<and>
      length queue = 2 \<and> Finite 0 \<in> set (map snd queue) \<and>
      sorted_wrt float_le (map snd queue))"
  using create_queue_schedule [of "[''camA'', ''camB'']" "Some [Finite 3, Finite 1]" "[3, 1]"
      example_env initial_world]
  by (simp add: create_queue_def shift_queue_def list_sort_def binary64_zero binary64_small)

text \<open>
  The claim as it stands fails for offsets that are not finite: with two offsets \<open>inf\<close>
  (which \<open>-d inf inf\<close> supplies) the least offset is \<open>inf\<close> and both delays are
  \<open>inf - inf\<close>, that is \<open>nan\<close>: no delay is 0 and none is at least 0.
\<close>

theorem infinite_offsets_counterexample:
  "[cam_a, cam_b] \<noteq> [] \<and> length [PosInf, PosInf] = length [cam_a, cam_b] \<and>
   create_queue example_env [cam_a, cam_b] (Some [PosInf, PosInf]) initial_world =
     (Inr [(cam_a, NaN), (cam_b, NaN)], initial_world) \<and>
   Finite 0 \<notin> set (map snd [(cam_a, NaN), (cam_b, NaN)]) \<and>
   \<not> float_le (Finite 0) NaN"
  by (simp add: create_queue_def shift_queue_def list_sort_def)

lemma subseq_nth_pair:
  assumes "i < j" and "j < length xs"
  shows "subseq [xs ! i, xs ! j] xs"
proof -
  from assms have i: "i < length xs" by simp
  from assms have "xs ! j = drop (Suc i) xs ! (j - Suc i)" by simp
  moreover from assms have "j - Suc i < length (drop (Suc i) xs)" by simp
  ultimately have "xs ! j \<in> set (drop (Suc i) xs)" by (metis nth_mem)
  then have "subseq [xs ! j] (drop (Suc i) xs)" by (simp only: subseq_singleton_left)
  then have "subseq (xs ! i # [xs ! j]) (xs ! i # drop (Suc i) xs)" by (rule subseq_Cons2)
  then have "subseq [xs ! i, xs ! j] (take i xs @ xs ! i # drop (Suc i) xs)"
    by (rule subseq_drop_many)
  with id_take_nth_drop [OF i] show ?thesis by simp
qed

lemma filter_offset_rank:
  assumes "\<forall>p\<in>set ps. snd p \<noteq> NaN"
  shows "filter (\<lambda>p. snd p = k) ps =
    (if k = NaN then [] else filter (\<lambda>p. rank (snd p) = rank k) ps)"
proof (cases "k = NaN")
  case True
  with assms show ?thesis by (simp add: filter_empty_conv)
next
  case False
  have "filter (\<lambda>p. snd p = k) ps = filter (\<lambda>p. rank (snd p) = rank k) ps"
  proof (rule filter_cong [OF refl])
    fix p assume "p \<in> set ps"
    with assms have "snd p \<noteq> NaN" by simp
    from rank_eq [OF this False] show "(snd p = k) = (rank (snd p) = rank k)" by simp
  qed
  with False show ?thesis by simp
qed

text \<open>
  Claim C4, as amended. When no offset is \<open>nan\<close>, the sort is stable: the queue is the
  list of (stream, offset) pairs rearranged, with one delay subtracted from every offset,
  and for every offset value the pairs having that offset stand in the order they have in
  the input. So of two streams with the same offset, the one that is earlier in the input
  comes earlier in the queue.
\<close>

theorem create_queue_stable:
  assumes "input_stream_names \<noteq> []"
    and "delays = Some offsets \<and> length offsets = length input_stream_names \<or>
         (delays = None \<or> delays = Some []) \<and>
         list_all2 (\<lambda>n d. probed_delay e n = Inr d) input_stream_names offsets"
    and "NaN \<notin> set offsets"
  shows "\<exists>queue w' sorted_pairs least.
     create_queue e input_stream_names delays w = (Inr queue, w') \<and>
     queue = map (\<lambda>entry. (fst entry, float_sub (snd entry) least)) sorted_pairs \<and>
     (\<forall>k. filter (\<lambda>p. snd p = k) sorted_pairs =
          filter (\<lambda>p. snd p = k) (zip input_stream_names offsets)) \<and>
     (\<forall>i j. i < j \<and> j < length input_stream_names \<and> offsets ! i = offsets ! j \<longrightarrow>
          subseq [input_stream_names ! i, input_stream_names ! j] (map fst queue))"
proof -
  let ?pairs = "zip input_stream_names offsets"
  let ?sorted = "sort_key (\<lambda>p. rank (snd p)) ?pairs"
  have len: "length offsets = length input_stream_names"
    using assms(2) by (auto dest: list_all2_lengthD)
  with assms(1) have ne: "?pairs \<noteq> []" by (cases input_stream_names; cases offsets; simp)
  have nn: "\<forall>p\<in>set ?pairs. snd p \<noteq> NaN"
  proof
    fix p assume "p \<in> set ?pairs"
    then have "snd p \<in> set offsets" by (metis in_set_zipE prod.collapse)
    with assms(3) show "snd p \<noteq> NaN" by auto
  qed
  from shift_queue_nan_free [OF ne nn] obtain least :: "string \<times> pyfloat" where
    sh: "shift_queue ?pairs =
      Inr (map (\<lambda>entry. (fst entry, float_sub (snd entry) (snd least))) ?sorted)"
    by blast
  let ?q = "map (\<lambda>entry. (fst entry, float_sub (snd entry) (snd least))) ?sorted"
  from create_queue_pairs [OF assms(1,2), of w] sh
  obtain w' where cq: "create_queue e input_stream_names delays w = (Inr ?q, w')" by simp
  have nn': "\<forall>p\<in>set ?sorted. snd p \<noteq> NaN" using nn by simp
  have st: "filter (\<lambda>p. snd p = k) ?sorted = filter (\<lambda>p. snd p = k) ?pairs" for k
    unfolding filter_offset_rank [OF nn, of k] filter_offset_rank [OF nn', of k]
    by (simp add: sort_key_stable)
  have sub: "subseq [input_stream_names ! i, input_stream_names ! j] (map fst ?q)"
    if "i < j" "j < length input_stream_names" "offsets ! i = offsets ! j" for i j
  proof -
    let ?k = "offsets ! i"
    from that len have ij: "i < length ?pairs" "j < length ?pairs" by simp_all
    then have a: "?pairs ! i = (input_stream_names ! i, ?k)"
      and b: "?pairs ! j = (input_stream_names ! j, ?k)"
      using that(3) by simp_all
    from that(1) ij(2) have "subseq [?pairs ! i, ?pairs ! j] ?pairs" by (rule subseq_nth_pair)
    then have "subseq (filter (\<lambda>p. snd p = ?k) [?pairs ! i, ?pairs ! j])
        (filter (\<lambda>p. snd p = ?k) ?pairs)"
      by (rule subseq_filter)
    then have "subseq [?pairs ! i, ?pairs ! j] (filter (\<lambda>p. snd p = ?k) ?sorted)"
      by (simp add: a b st)
    moreover have "subseq (filter (\<lambda>p. snd p = ?k) ?sorted) ?sorted"
      by (rule subseq_filter_left)
    ultimately have "subseq [?pairs ! i, ?pairs ! j] ?sorted"
      by (rule subseq_order.trans)
    then have "subseq (map fst [?pairs ! i, ?pairs ! j]) (map fst ?sorted)"
      by (rule subseq_map)
    then show ?thesis by (simp add: a b comp_def)
  qed
  from cq st sub show ?thesis by blast
qed

lemma sort_four:
  "list_sort snd [(''camA'', Finite 2), (''camB'', Finite 1), (''camC'', Finite 2),
      (''camD'', Finite 1)] =
   [(''camB'', Finite 1), (''camD'', Finite 1), (''camA'', Finite 2), (''camC'', Finite 2)]"
  by code_simp

theorem create_queue_stable_witness:
  "[''camA'', ''camB'', ''camC'', ''camD''] \<noteq> [] \<and>
   length [Finite 2, Finite 1, Finite 2, Finite 1] = length [''camA'', ''camB'', ''camC'', ''camD''] \<and>
   NaN \<notin> set [Finite 2, Finite 1, Finite 2, Finite 1] \<and>
   create_queue example_env [''camA'', ''camB'', ''camC'', ''camD'']
       (Some [Finite 2, Finite 1, Finite 2, Finite 1]) initial_world =
     (Inr [(''camB'', Finite 0), (''camD'', Finite 0), (''camA'', Finite 1), (''camC'', Finite 1)],
      initial_world) \<and>
   subseq [''camA'', ''camC'']
     (map fst [(''camB'', Finite 0), (''camD'', Finite 0), (''camA'', Finite 1), (''camC'', Finite 1)])"
proof -
  let ?names = "[''camA'', ''camB'', ''camC'', ''camD'']"
  let ?offsets = "[Finite 2, Finite 1, Finite 2, Finite 1]"
  have q: "create_queue example_env ?names (Some ?offsets) initial_world =
     (Inr [(''camB'', Finite 0), (''camD'', Finite 0), (''camA'', Finite 1), (''camC'', Finite 1)],
      initial_world)"
    by (simp add: create_queue_def shift_queue_def sort_four binary64_zero binary64_small)
  have h: "?names \<noteq> []" "Some ?offsets = Some ?offsets \<and> length ?offsets = length ?names \<or>
      (Some ?offsets = None \<or> Some ?offsets = Some []) \<and>
      list_all2 (\<lambda>n d. probed_delay example_env n = Inr d) ?names ?offsets"
    "NaN \<notin> set ?offsets"
    by simp_all
  from create_queue_stable [OF h, of initial_world] obtain queue w' where
    "create_queue example_env ?names (Some ?offsets) initial_world = (Inr queue, w')"
    and s: "\<forall>i j. i < j \<and> j < length ?names \<and> ?offsets ! i = ?offsets ! j \<longrightarrow>
          subseq [?names ! i, ?names ! j] (map fst queue)"
    by blast
  with q have queue: "queue =
      [(''camB'', Finite 0), (''camD'', Finite 0), (''camA'', Finite 1), (''camC'', Finite 1)]"
    by simp
  from s [rule_format, of 0 2] have "subseq [''camA'', ''camC''] (map fst queue)" by simp
  with q queue show ?thesis by simp
qed

text \<open>
  The claim as it stands fails when an offset is \<open>nan\<close>: every comparison with \<open>nan\<close>
  is false, and the binary insertion of \<open>list.sort\<close> then places the last stream, of offset
  0, before the stream before it, of offset 0 as well.
\<close>

lemma sort_seven:
  "list_sort snd [(''s0'', Finite 0), (''s1'', Finite 0), (''s2'', Finite 1), (''s3'', Finite 0),
      (''s4'', NaN), (''s5'', Finite 0), (''s6'', Finite 0)] =
   [(''s0'', Finite 0), (''s1'', Finite 0), (''s3'', Finite 0), (''s6'', Finite 0),
    (''s2'', Finite 1), (''s4'', NaN), (''s5'', Finite 0)]"
  by code_simp

theorem nan_offset_counterexample:
  "length [Finite 0, Finite 0, Finite 1, Finite 0, NaN, Finite 0, Finite 0] =
     length [''s0'', ''s1'', ''s2'', ''s3'', ''s4'', ''s5'', ''s6''] \<and>
   [Finite 0, Finite 0, Finite 1, Finite 0, NaN, Finite 0, Finite 0] ! 5 =
     [Finite 0, Finite 0, Finite 1, Finite 0, NaN, Finite 0, Finite 0] ! 6 \<and>
   create_queue example_env [''s0'', ''s1'', ''s2'', ''s3'', ''s4'', ''s5'', ''s6'']
       (Some [Finite 0, Finite 0, Finite 1, Finite 0, NaN, Finite 0, Finite 0]) initial_world =
     (Inr [(''s0'', Finite 0), (''s1'', Finite 0), (''s3'', Finite 0), (''s6'', Finite 0),
           (''s2'', Finite 1), (''s4'', NaN), (''s5'', Finite 0)], initial_world) \<and>
   \<not> subseq [''s5'', ''s6''] [''s0'', ''s1'', ''s3'', ''s6'', ''s2'', ''s4'', ''s5'']"
  by (simp add: create_queue_def shift_queue_def sort_seven binary64_zero binary64_small)

subsection \<open>Starting the queue\<close>

lemma wait_until_done:
  "\<not> float_lt (float_sub (Finite (time_at e n)) (Finite begin0)) delay \<Longrightarrow>
   wait_until e begin0 delay n = Some (Suc n)"
  by (subst wait_until.simps) simp

lemma wait_until_step:
  "float_lt (float_sub (Finite (time_at e n)) (Finite begin0)) delay \<Longrightarrow>
   wait_until e begin0 delay n = wait_until e begin0 delay (Suc n)"
  by (subst wait_until.simps) simp

lemma create_thread_unbound:
  "globals_get_filename e = None \<Longrightarrow>
   create_thread e input_stream_name audio w = (Inl (NameError ''get_filename''), w)"
  by (simp add: create_thread_def)

lemma start_loop_unbound:
  assumes "globals_get_filename e = None"
  shows "start_loop e begin0 audio (entry # queue) threads w = None \<or>
    (\<exists>n. start_loop e begin0 audio (entry # queue) threads w =
       Some (Inl (NameError ''get_filename''), w\<lparr>ticks := n\<rparr>))"
  by (cases "wait_until e begin0 (snd entry) (ticks w)")
     (auto simp: create_thread_unbound [OF assms])

lemma example_unbound: "globals_get_filename example_env = None"
  by (simp add: example_env_def)

lemma example_time: "time_at example_env n = real n"
  by (simp add: example_env_def)

lemma example_wait:
  "wait_until example_env (real t) (Finite 0) (Suc t) = Some (Suc (Suc t))"
  by (rule wait_until_done) (simp add: example_time binary64_small)

lemma start_queue_example:
  "start_queue example_env ((stream_name, Finite 0) # queue) audio w =
     Some (Inl (NameError ''get_filename''), w\<lparr>ticks := Suc (Suc (ticks w))\<rparr>)"
  by (simp add: start_queue_def example_time example_wait
      create_thread_unbound [OF example_unbound])

text \<open>
  A wait that ends has found, at its last reading and at no reading before it, that the
  time since \<open>begin\<close> is not below the delay.
\<close>

lemma wait_until_reading:
  assumes "wait_until e begin0 delay n = Some n'"
  shows "n < n' \<and>
   \<not> float_lt (float_sub (Finite (time_at e (n' - 1))) (Finite begin0)) delay \<and>
   (\<forall>k. n \<le> k \<and> k < n' - 1 \<longrightarrow>
      float_lt (float_sub (Finite (time_at e k)) (Finite begin0)) delay)"
proof (rule wait_until.raw_induct [where P = "\<lambda>e begin0 delay n n'.
    n < n' \<and> \<not> float_lt (float_sub (Finite (time_at e (n' - 1))) (Finite begin0)) delay \<and>
    (\<forall>k. n \<le> k \<and> k < n' - 1 \<longrightarrow>
       float_lt (float_sub (Finite (time_at e k)) (Finite begin0)) delay)", OF _ assms])
  fix f :: "env \<Rightarrow> real \<Rightarrow> pyfloat \<Rightarrow> nat \<Rightarrow> nat option"
    and e :: env and begin0 :: real and delay :: pyfloat and n n' :: nat
  let ?early = "\<lambda>k. float_lt (float_sub (Finite (time_at e k)) (Finite begin0)) delay"
  assume IH: "\<And>e begin0 delay n y. f e begin0 delay n = Some y \<Longrightarrow>
      n < y \<and> \<not> float_lt (float_sub (Finite (time_at e (y - 1))) (Finite begin0)) delay \<and>
      (\<forall>k. n \<le> k \<and> k < y - 1 \<longrightarrow>
         float_lt (float_sub (Finite (time_at e k)) (Finite begin0)) delay)"
    and eq: "(if float_lt (float_sub (Finite (time_at e n)) (Finite begin0)) delay
        then f e begin0 delay (Suc n) else Some (Suc n)) = Some n'"
  show "n < n' \<and> \<not> ?early (n' - 1) \<and> (\<forall>k. n \<le> k \<and> k < n' - 1 \<longrightarrow> ?early k)"
  proof (cases "?early n")
    case True
    with eq have "f e begin0 delay (Suc n) = Some n'" by simp
    from IH [OF this] have "Suc n < n'" "\<not> ?early (n' - 1)"
      and later: "\<And>k. Suc n \<le> k \<Longrightarrow> k < n' - 1 \<Longrightarrow> ?early k"
      by blast+
    moreover have "?early k" if "n \<le> k" "k < n' - 1" for k
    proof (cases "k = n")
      case True
      with \<open>?early n\<close> show ?thesis by simp
    next
      case False
      with that have "Suc n \<le> k" by simp
      then show ?thesis using that(2) by (rule later)
    qed
    ultimately show ?thesis by auto
  next
    case False
    with eq show ?thesis by auto
  qed
qed

lemma start_queue_unbound:
  assumes "globals_get_filename e = None"
  shows "start_queue e (entry # queue) audio w = None \<or>
    (\<exists>n. start_queue e (entry # queue) audio w =
       Some (Inl (NameError ''get_filename''), w\<lparr>ticks := n\<rparr>))"
proof -
  from start_loop_unbound [OF assms, of "time_at e (ticks w)" audio entry queue "[]"
      "w\<lparr>ticks := Suc (ticks w)\<rparr>"]
  show ?thesis by (auto simp: start_queue_def)
qed

text \<open>
  Claim C3 fails on the code. \<open>create_thread\<close> calls \<open>get_filename\<close>, a name the module
  never binds (the function it defines is \<open>make_filename\<close>): evaluating the arguments of
  the thread raises \<open>NameError\<close>, for every stream, before any thread exists. No thread is
  started and no handle is returned.
\<close>

theorem create_thread_name_error:
  "create_thread (as_written e) input_stream_name audio_stream_name w =
     (Inl (NameError ''get_filename''), w)"
  by (simp add: create_thread_def as_written_def)

text \<open>
  Claim C7 fails on the code, by the defect of C3. For the queue of the concrete run,
  \<open>start_queue\<close> waits for the first delay, then the first call of \<open>create_thread\<close> raises
  \<open>NameError\<close>: no thread is started and no list of threads is returned. By
  \<open>start_queue_unbound\<close> this is so for every non-empty queue, unless the wait never ends.
\<close>

theorem start_queue_name_error:
  "start_queue example_env [(cam_b, Finite 0), (cam_a, Finite 2)] None initial_world =
     Some (Inl (NameError ''get_filename''), initial_world\<lparr>ticks := 2\<rparr>) \<and>
   started (initial_world\<lparr>ticks := 2\<rparr>) = []"
  by (simp add: start_queue_example) (simp add: initial_world_def)

subsection \<open>Failing probes\<close>

lemma create_queue_error:
  "create_queue e input_stream_names delays w = (Inl err, w') \<Longrightarrow>
   err = ValueError ''min() arg is an empty sequence'' \<or>
   (\<exists>n\<in>set input_stream_names. probed_delay e n = Inl err)"
  unfolding create_queue_def
  by (auto split: option.splits list.splits prod.splits sum.splits
      dest: shift_queue_error probe_all_error)

lemma main_after_create_queue_error:
  "\<not> count_mismatch input_stream_names delays \<Longrightarrow>
   create_queue e input_stream_names delays w = (Inl err, w') \<Longrightarrow>
   main e input_stream_names audio delays w = Some (err, w')"
  by (simp add: main_def)

lemma example_probed_delay:
  "probed_delay example_env cam_a = Inr (Finite 3)"
  "probed_delay example_env cam_b = Inr (Finite 1)"
  "probed_delay example_env cam_c = Inl StopIteration"
  by (simp_all add: probed_delay_def example_env_def example_probe_def cam_a_def cam_b_def
      cam_c_def delay_of_probe_def)

text \<open>
  Claim C6. With no offsets given, if the probe of any stream fails, \<open>create_queue\<close> raises
  the error of the first stream whose probe fails, having probed the streams up to that one
  and no further; it returns no queue, and \<open>main\<close> ends with the same error and no thread
  started. A probe answer without a video stream is one of the failures: it raises
  \<open>StopIteration\<close>, as the stream \<open>cam_c\<close> of the concrete run shows.
\<close>

theorem create_queue_probe_failure:
  assumes "n \<in> set input_stream_names" and "isl (probed_delay e n)"
  shows "\<exists>pre m post err.
     input_stream_names = pre @ m # post \<and>
     (\<forall>x\<in>set pre. \<not> isl (probed_delay e x)) \<and>
     probed_delay e m = Inl err \<and>
     create_queue e input_stream_names None w =
       (Inl err, w\<lparr>probed := probed w @ pre @ [m]\<rparr>) \<and>
     main e input_stream_names audio None w =
       Some (err, w\<lparr>probed := probed w @ pre @ [m]\<rparr>)"
proof -
  from assms have "\<exists>x\<in>set input_stream_names. isl (probed_delay e x)" by blast
  from probe_all_fails [OF this, of "[]" w]
  obtain pre m post err where h: "input_stream_names = pre @ m # post"
    "\<forall>x\<in>set pre. \<not> isl (probed_delay e x)" "probed_delay e m = Inl err"
    "probe_all e input_stream_names [] w = (Inl err, w\<lparr>probed := probed w @ pre @ [m]\<rparr>)"
    by blast
  from h(4) have cq: "create_queue e input_stream_names None w =
       (Inl err, w\<lparr>probed := probed w @ pre @ [m]\<rparr>)"
    by (simp add: create_queue_def)
  then have "main e input_stream_names audio None w =
       Some (err, w\<lparr>probed := probed w @ pre @ [m]\<rparr>)"
    by (intro main_after_create_queue_error) (simp_all add: count_mismatch_def)
  with h(1-3) cq show ?thesis by blast
qed

theorem create_queue_probe_failure_witness:
  "cam_c \<in> set [cam_a, cam_c, cam_b] \<and> isl (probed_delay example_env cam_c) \<and>
   create_queue example_env [cam_a, cam_c, cam_b] None initial_world =
     (Inl StopIteration, initial_world\<lparr>probed := [cam_a, cam_c]\<rparr>) \<and>
   main example_env [cam_a, cam_c, cam_b] None None initial_world =
     Some (StopIteration, initial_world\<lparr>probed := [cam_a, cam_c]\<rparr>)"
proof -
  have c: "cam_c \<in> set [cam_a, cam_c, cam_b]" "isl (probed_delay example_env cam_c)"
    by (simp_all add: example_probed_delay)
  from create_queue_probe_failure [OF c, of initial_world None]
  obtain err w' where
    "create_queue example_env [cam_a, cam_c, cam_b] None initial_world = (Inl err, w')"
    "main example_env [cam_a, cam_c, cam_b] None None initial_world = Some (err, w')"
    by blast
  with c show ?thesis
    by (simp add: create_queue_def get_stream_delay_def example_probed_delay initial_world_def)
qed

subsection \<open>The count check\<close>

lemma probe_all_zip:
  "probe_all e ns queue w = (Inr queue', w') \<Longrightarrow>
   \<exists>ds. list_all2 (\<lambda>n d. probed_delay e n = Inr d) ns ds \<and> queue' = queue @ zip ns ds"
proof (induction ns arbitrary: queue w)
  case Nil
  then show ?case by simp
next
  case (Cons n ns)
  show ?case
  proof (cases "probed_delay e n")
    case (Inl err)
    with Cons.prems show ?thesis by (simp add: get_stream_delay_def)
  next
    case (Inr d)
    with Cons.prems
    have "probe_all e ns (queue @ [(n, d)]) (w\<lparr>probed := probed w @ [n]\<rparr>) = (Inr queue', w')"
      by (simp add: get_stream_delay_def)
    from Cons.IH [OF this] obtain ds
      where "list_all2 (\<lambda>n d. probed_delay e n = Inr d) ns ds"
        and "queue' = (queue @ [(n, d)]) @ zip ns ds"
      by blast
    with Inr show ?thesis by (intro exI [of _ "d # ds"]) simp
  qed
qed

lemma example_queue:
  "create_queue example_env [cam_a, cam_b] None w =
     (Inr [(cam_b, Finite 0), (cam_a, Finite 2)], w\<lparr>probed := probed w @ [cam_a, cam_b]\<rparr>)"
  by (simp add: create_queue_def get_stream_delay_def example_probed_delay shift_queue_def
      list_sort_def binary64_zero binary64_small)

lemma single_queue:
  "create_queue example_env [cam_a] None w =
     (Inr [(cam_a, Finite 0)], w\<lparr>probed := probed w @ [cam_a]\<rparr>)"
  by (simp add: create_queue_def get_stream_delay_def example_probed_delay shift_queue_def
      list_sort_def binary64_zero)

text \<open>
  Claim C9. An empty list of offsets does not trip the count check, whatever the number of
  streams. \<open>main\<close> then goes on exactly as with no offsets: it builds the queue that
  \<open>create_queue\<close> builds without offsets, starts it and supervises the threads, and it ends
  with the error of \<open>create_queue\<close> or of \<open>start_queue\<close> when one is raised.
  \<open>create_queue\<close> itself takes the probing branch: it probes the streams in input order,
  raises what the first failing probe raises, and otherwise builds the queue from the probed
  offset of every stream. The error of the count check is not what it raises.
\<close>

theorem empty_delays_as_omitted:
  "\<not> count_mismatch input_stream_names (Some []) \<and>
   main e input_stream_names audio (Some []) w =
     (case create_queue e input_stream_names None w of
        (Inl err, w1) \<Rightarrow> Some (err, w1)
      | (Inr queue, w1) \<Rightarrow>
          (case start_queue e queue audio w1 of
             None \<Rightarrow> None
           | Some (Inl err, w2) \<Rightarrow> Some (err, w2)
           | Some (Inr threads, w2) \<Rightarrow>
               Some (supervise e input_stream_names audio (interrupt_after e) threads w2))) \<and>
   main e input_stream_names audio (Some []) w = main e input_stream_names audio None w \<and>
   create_queue e input_stream_names (Some []) w = create_queue e input_stream_names None w \<and>
   create_queue e input_stream_names (Some []) w =
     (case probe_all e input_stream_names [] w of
        (Inl err, w') \<Rightarrow> (Inl err, w')
      | (Inr queue, w') \<Rightarrow> (shift_queue queue, w')) \<and>
   fst (create_queue e input_stream_names (Some []) w) \<noteq>
     Inl (ValueError ''Number of delays must be equal to number of input streams'') \<and>
   (\<forall>queue w'. create_queue e input_stream_names (Some []) w = (Inr queue, w') \<longrightarrow>
      probed w' = probed w @ input_stream_names \<and>
      (\<exists>offsets. list_all2 (\<lambda>n d. probed_delay e n = Inr d) input_stream_names offsets \<and>
         shift_queue (zip input_stream_names offsets) = Inr queue))"
proof -
  have a: "\<not> count_mismatch input_stream_names (Some [])" by (simp add: count_mismatch_def)
  have b: "create_queue e input_stream_names (Some []) w = create_queue e input_stream_names None w"
    by (simp add: create_queue_def)
  have b': "create_queue e input_stream_names (Some []) w =
     (case probe_all e input_stream_names [] w of
        (Inl err, w') \<Rightarrow> (Inl err, w')
      | (Inr queue, w') \<Rightarrow> (shift_queue queue, w'))"
    by (simp add: create_queue_def)
  have c: "main e input_stream_names audio (Some []) w =
     (case create_queue e input_stream_names None w of
        (Inl err, w1) \<Rightarrow> Some (err, w1)
      | (Inr queue, w1) \<Rightarrow>
          (case start_queue e queue audio w1 of
             None \<Rightarrow> None
           | Some (Inl err, w2) \<Rightarrow> Some (err, w2)
           | Some (Inr threads, w2) \<Rightarrow>
               Some (supervise e input_stream_names audio (interrupt_after e) threads w2)))"
    by (simp add: main_def b count_mismatch_def)
  have c': "main e input_stream_names audio (Some []) w = main e input_stream_names audio None w"
    by (simp add: main_def b count_mismatch_def)
  have d: "fst (create_queue e input_stream_names (Some []) w) \<noteq>
     Inl (ValueError ''Number of delays must be equal to number of input streams'')"
  proof
    assume "fst (create_queue e input_stream_names (Some []) w) =
      Inl (ValueError ''Number of delays must be equal to number of input streams'')"
    then obtain w' where "create_queue e input_stream_names (Some []) w =
      (Inl (ValueError ''Number of delays must be equal to number of input streams''), w')"
      by (cases "create_queue e input_stream_names (Some []) w") auto
    from create_queue_error [OF this] show False
      by (auto dest: probed_delay_error)
  qed
  have e: "probed w' = probed w @ input_stream_names \<and>
      (\<exists>offsets. list_all2 (\<lambda>n d. probed_delay e n = Inr d) input_stream_names offsets \<and>
         shift_queue (zip input_stream_names offsets) = Inr queue)"
    if "create_queue e input_stream_names (Some []) w = (Inr queue, w')" for queue w'
  proof -
    from that obtain q where q: "probe_all e input_stream_names [] w = (Inr q, w')"
      and s: "shift_queue q = Inr queue"
      by (auto simp: create_queue_def split: prod.splits sum.splits)
    from probe_all_probed [OF q] have "probed w' = probed w @ input_stream_names" by simp
    moreover from probe_all_zip [OF q] obtain offsets
      where "list_all2 (\<lambda>n d. probed_delay e n = Inr d) input_stream_names offsets"
        and "q = zip input_stream_names offsets"
      by auto
    ultimately show ?thesis using s by blast
  qed
  from a b b' c c' d e show ?thesis by blast
qed

theorem empty_delays_as_omitted_witness:
  "create_queue example_env [cam_a, cam_b] (Some []) initial_world =
     (Inr [(cam_b, Finite 0), (cam_a, Finite 2)], initial_world\<lparr>probed := [cam_a, cam_b]\<rparr>) \<and>
   create_queue example_env [cam_a, cam_b] None initial_world =
     (Inr [(cam_b, Finite 0), (cam_a, Finite 2)], initial_world\<lparr>probed := [cam_a, cam_b]\<rparr>) \<and>
   probed (snd (create_queue example_env [cam_a, cam_b] (Some []) initial_world)) =
     probed initial_world @ [cam_a, cam_b] \<and>
   main example_env [cam_a, cam_b] None (Some []) initial_world =
     Some (NameError ''get_filename'', initial_world\<lparr>ticks := 2, probed := [cam_a, cam_b]\<rparr>)"
proof -
  have q: "create_queue example_env [cam_a, cam_b] None initial_world =
     (Inr [(cam_b, Finite 0), (cam_a, Finite 2)], initial_world\<lparr>probed := [cam_a, cam_b]\<rparr>)"
    by (simp add: example_queue) (simp add: initial_world_def)
  have s: "start_queue example_env [(cam_b, Finite 0), (cam_a, Finite 2)] None
      (initial_world\<lparr>probed := [cam_a, cam_b]\<rparr>) =
    Some (Inl (NameError ''get_filename''), initial_world\<lparr>ticks := 2, probed := [cam_a, cam_b]\<rparr>)"
    by (simp add: start_queue_example) (simp add: initial_world_def)
  from empty_delays_as_omitted [of "[cam_a, cam_b]" example_env None initial_world]
  have "create_queue example_env [cam_a, cam_b] (Some []) initial_world =
          create_queue example_env [cam_a, cam_b] None initial_world"
    and "\<forall>queue w'. create_queue example_env [cam_a, cam_b] (Some []) initial_world =
          (Inr queue, w') \<longrightarrow> probed w' = probed initial_world @ [cam_a, cam_b] \<and>
      (\<exists>offsets. list_all2 (\<lambda>n d. probed_delay example_env n = Inr d) [cam_a, cam_b] offsets \<and>
         shift_queue (zip [cam_a, cam_b] offsets) = Inr queue)"
    and "main example_env [cam_a, cam_b] None (Some []) initial_world =
     (case create_queue example_env [cam_a, cam_b] None initial_world of
        (Inl err, w1) \<Rightarrow> Some (err, w1)
      | (Inr queue, w1) \<Rightarrow>
          (case start_queue example_env queue None w1 of
             None \<Rightarrow> None
           | Some (Inl err, w2) \<Rightarrow> Some (err, w2)
           | Some (Inr threads, w2) \<Rightarrow>
               Some (supervise example_env [cam_a, cam_b] None (interrupt_after example_env)
                 threads w2)))"
    by blast+
  with q s show ?thesis by simp
qed

text \<open>
  Claim C5, as amended. When a list of offsets with at least one element is given and its
  length is not the number of streams, \<open>main\<close> raises the \<open>ValueError\<close> of the count check
  at once: nothing is probed, no queue is built, no thread is started, and the world is as
  it was.
\<close>

theorem count_mismatch_rejected:
  assumes "delays \<noteq> []" and "length delays \<noteq> length input_stream_names"
  shows "main e input_stream_names audio (Some delays) w =
     Some (ValueError ''Number of delays must be equal to number of input streams'', w)"
proof -
  from assms(1) obtain d ds where "delays = d # ds" by (cases delays) auto
  with assms(2) have "count_mismatch input_stream_names (Some delays)"
    by (auto simp: count_mismatch_def)
  then show ?thesis by (simp add: main_def)
qed

theorem count_mismatch_rejected_witness:
  "[Finite 3, Finite 1] \<noteq> [] \<and> length [Finite 3, Finite 1] \<noteq> length [cam_a] \<and>
   main example_env [cam_a] None (Some [Finite 3, Finite 1]) initial_world =
     Some (ValueError ''Number of delays must be equal to number of input streams'',
           initial_world)"
  using count_mismatch_rejected [of "[Finite 3, Finite 1]" "[cam_a]" example_env None
      initial_world]
  by simp

text \<open>
  The claim as it stands fails for the empty list of offsets: one stream and no offset
  differ in number, yet the count check lets the run go on. The stream is probed, the
  queue is built, and the run ends in \<open>start_queue\<close>.
\<close>

theorem empty_delays_counterexample:
  "[cam_a] \<noteq> [] \<and> length ([] :: pyfloat list) \<noteq> length [cam_a] \<and>
   main example_env [cam_a] None (Some []) initial_world =
     Some (NameError ''get_filename'', initial_world\<lparr>ticks := 2, probed := [cam_a]\<rparr>) \<and>
   main example_env [cam_a] None (Some []) initial_world \<noteq>
     Some (ValueError ''Number of delays must be equal to number of input streams'',
           initial_world)"
proof -
  have q: "create_queue example_env [cam_a] (Some []) initial_world =
      (Inr [(cam_a, Finite 0)], initial_world\<lparr>probed := [cam_a]\<rparr>)"
    using single_queue [of initial_world] by (simp add: create_queue_def initial_world_def)
  have s: "start_queue example_env [(cam_a, Finite 0)] None (initial_world\<lparr>probed := [cam_a]\<rparr>) =
      Some (Inl (NameError ''get_filename''), initial_world\<lparr>ticks := 2, probed := [cam_a]\<rparr>)"
    by (simp add: start_queue_example) (simp add: initial_world_def)
  have "main example_env [cam_a] None (Some []) initial_world =
     Some (NameError ''get_filename'', initial_world\<lparr>ticks := 2, probed := [cam_a]\<rparr>)"
    by (simp add: main_def count_mismatch_def q s)
  then show ?thesis by simp
qed

subsection \<open>The file name\<close>

lemma digit_eq: "digit a = digit b \<Longrightarrow> a mod 10 = b mod 10"
proof -
  assume h: "digit a = digit b"
  have d: "distinct ''0123456789''" by simp
  have "a mod 10 < length ''0123456789''" "b mod 10 < length ''0123456789''" by simp_all
  with d h show ?thesis unfolding digit_def by (simp only: nth_eq_iff_index_eq)
qed

lemma div_mod_10_eq: "a div 10 = b div 10 \<Longrightarrow> a mod 10 = b mod 10 \<Longrightarrow> a = (b :: nat)"
  by (metis div_mult_mod_eq)

lemma pad2_eq: "a < 100 \<Longrightarrow> b < 100 \<Longrightarrow> pad2 a = pad2 b \<Longrightarrow> a = b"
proof -
  assume a: "a < 100" and b: "b < 100" and h: "pad2 a = pad2 b"
  from h have d: "(a div 10) mod 10 = (b div 10) mod 10" "a mod 10 = b mod 10"
    by (auto simp: pad2_def dest: digit_eq)
  from a b have "a div 10 < 10" "b div 10 < 10" by simp_all
  with d(1) have "a div 10 = b div 10" by simp
  from this d(2) show ?thesis by (rule div_mod_10_eq)
qed

lemma pad4_eq: "a < 10000 \<Longrightarrow> b < 10000 \<Longrightarrow> pad4 a = pad4 b \<Longrightarrow> a = b"
proof -
  assume a: "a < 10000" and b: "b < 10000" and h: "pad4 a = pad4 b"
  from h have d: "(a div 1000) mod 10 = (b div 1000) mod 10"
    "(a div 100) mod 10 = (b div 100) mod 10"
    "(a div 10) mod 10 = (b div 10) mod 10" "a mod 10 = b mod 10"
    by (auto simp: pad4_def dest: digit_eq)
  have s: "n div 100 = n div 10 div 10" "n div 1000 = n div 100 div 10" for n :: nat
    by (simp_all add: div_mult2_eq [symmetric])
  from a b have "a div 1000 < 10" "b div 1000 < 10" by simp_all
  with d(1) have "a div 1000 = b div 1000" by simp
  then have "a div 100 div 10 = b div 100 div 10" by (simp only: s(2))
  from this d(2) have "a div 100 = b div 100" by (rule div_mod_10_eq)
  then have "a div 10 div 10 = b div 10 div 10" by (simp only: s(1))
  from this d(3) have "a div 10 = b div 10" by (rule div_mod_10_eq)
  from this d(4) show ?thesis by (rule div_mod_10_eq)
qed

lemma strftime_eq:
  assumes "valid_timestamp t1" and "valid_timestamp t2"
  shows "strftime t1 = strftime t2 \<longleftrightarrow>
     year t1 = year t2 \<and> month t1 = month t2 \<and> day t1 = day t2 \<and>
     hour t1 = hour t2 \<and> minute t1 = minute t2 \<and> second t1 = second t2"
proof
  assume h: "strftime t1 = strftime t2"
  have l2: "length (pad2 n) = 2" and l4: "length (pad4 n) = 4" for n
    by (simp_all add: pad2_def pad4_def)
  from h have "pad4 (year t1) = pad4 (year t2)" "pad2 (month t1) = pad2 (month t2)"
    "pad2 (day t1) = pad2 (day t2)" "pad2 (hour t1) = pad2 (hour t2)"
    "pad2 (minute t1) = pad2 (minute t2)" "pad2 (second t1) = pad2 (second t2)"
    by (simp_all add: strftime_def l2 l4)
  moreover from assms have "year t1 < 10000" "year t2 < 10000" "month t1 < 100" "month t2 < 100"
    "day t1 < 100" "day t2 < 100" "hour t1 < 100" "hour t2 < 100" "minute t1 < 100"
    "minute t2 < 100" "second t1 < 100" "second t2 < 100"
    by (simp_all add: valid_timestamp_def)
  ultimately show "year t1 = year t2 \<and> month t1 = month t2 \<and> day t1 = day t2 \<and>
     hour t1 = hour t2 \<and> minute t1 = minute t2 \<and> second t1 = second t2"
    by (intro conjI pad2_eq pad4_eq)
next
  assume "year t1 = year t2 \<and> month t1 = month t2 \<and> day t1 = day t2 \<and>
     hour t1 = hour t2 \<and> minute t1 = minute t2 \<and> second t1 = second t2"
  then show "strftime t1 = strftime t2" by (simp add: strftime_def)
qed

lemma re_search_cams:
  "re_search cam_a = Some ''10.0.0.1''" "re_search cam_b = Some ''10.0.0.2''"
  by (simp_all add: cam_a_def cam_b_def match_ip_def match_end_def is_digit_def numeral_3_eq_3)

lemma strftime_example: "strftime example_now = ''2024-05-17_09-03-41''"
  by (simp add: strftime_def example_now_def pad4_def pad2_def digit_def)

lemma strftime_microsecond: "strftime (t\<lparr>microsecond := us\<rparr>) = strftime t"
  by (simp add: strftime_def)

text \<open>
  Claim C8, as amended. For one stream and two valid readings of the clock, the two file
  names differ exactly when the readings differ in the year, month, day, hour, minute or
  whole second: the name has a resolution of one second, and two calls for the same stream
  within one second of the calendar give the same name.
\<close>

theorem filename_distinct_iff:
  assumes "valid_timestamp t1" and "valid_timestamp t2"
    and "filename_at stream_name t1 = Inr f1" and "filename_at stream_name t2 = Inr f2"
  shows "f1 \<noteq> f2 \<longleftrightarrow>
     \<not> (year t1 = year t2 \<and> month t1 = month t2 \<and> day t1 = day t2 \<and>
        hour t1 = hour t2 \<and> minute t1 = minute t2 \<and> second t1 = second t2)"
proof -
  from assms(3,4) obtain ip where "f1 = ip @ ''_'' @ strftime t1 @ ''.mp4''"
    "f2 = ip @ ''_'' @ strftime t2 @ ''.mp4''"
    by (auto simp: filename_at_def split: option.splits)
  then have "f1 = f2 \<longleftrightarrow> strftime t1 = strftime t2" by simp
  with strftime_eq [OF assms(1,2)] show ?thesis by simp
qed

theorem filename_distinct_iff_witness:
  "valid_timestamp example_now \<and> valid_timestamp (example_now\<lparr>second := 42\<rparr>) \<and>
   filename_at cam_a example_now = Inr ''10.0.0.1_2024-05-17_09-03-41.mp4'' \<and>
   filename_at cam_a (example_now\<lparr>second := 42\<rparr>) = Inr ''10.0.0.1_2024-05-17_09-03-42.mp4'' \<and>
   second example_now \<noteq> second (example_now\<lparr>second := 42\<rparr>)"
proof -
  have v1: "valid_timestamp example_now"
    by (simp add: valid_timestamp_def example_now_def)
  have v2: "valid_timestamp (example_now\<lparr>second := 42\<rparr>)"
    by (simp add: valid_timestamp_def example_now_def)
  have f1: "filename_at cam_a example_now = Inr ''10.0.0.1_2024-05-17_09-03-41.mp4''"
    by (simp add: filename_at_def re_search_cams strftime_example)
  have "strftime (example_now\<lparr>second := 42\<rparr>) = ''2024-05-17_09-03-42''"
    by (simp add: strftime_def example_now_def pad4_def pad2_def digit_def)
  then have f2: "filename_at cam_a (example_now\<lparr>second := 42\<rparr>) =
      Inr ''10.0.0.1_2024-05-17_09-03-42.mp4''"
    by (simp add: filename_at_def re_search_cams)
  have "''10.0.0.1_2024-05-17_09-03-41.mp4'' \<noteq> ''10.0.0.1_2024-05-17_09-03-42.mp4''"
    by simp
  with filename_distinct_iff [OF v1 v2 f1 f2]
  have "second example_now \<noteq> second (example_now\<lparr>second := 42\<rparr>)"
    by simp
  with v1 v2 f1 f2 show ?thesis by blast
qed

text \<open>
  The claim as it stands fails: two readings 0.5 seconds apart, within the same second,
  give the same file name for the same stream.
\<close>

theorem filename_same_second_counterexample:
  "microsecond example_now = 120000 \<and>
   microsecond (example_now\<lparr>microsecond := 620000\<rparr>) = 620000 \<and>
   example_now \<noteq> example_now\<lparr>microsecond := 620000\<rparr> \<and>
   filename_at cam_a example_now = Inr ''10.0.0.1_2024-05-17_09-03-41.mp4'' \<and>
   filename_at cam_a (example_now\<lparr>microsecond := 620000\<rparr>) =
     Inr ''10.0.0.1_2024-05-17_09-03-41.mp4''"
proof -
  have "microsecond example_now = 120000" by (simp add: example_now_def)
  moreover have "example_now \<noteq> example_now\<lparr>microsecond := 620000\<rparr>"
  proof
    assume "example_now = example_now\<lparr>microsecond := 620000\<rparr>"
    from arg_cong [OF this, of microsecond] show False by (simp add: example_now_def)
  qed
  moreover have "filename_at cam_a example_now = Inr ''10.0.0.1_2024-05-17_09-03-41.mp4''"
    "filename_at cam_a (example_now\<lparr>microsecond := 620000\<rparr>) =
       Inr ''10.0.0.1_2024-05-17_09-03-41.mp4''"
    by (simp_all add: filename_at_def re_search_cams strftime_microsecond strftime_example)
  ultimately show ?thesis by simp
qed

subsection \<open>Restarting a dead thread\<close>







subsection \<open>The order of the launches when get\_filename is bound\<close>

lemma create_thread_bound:
  assumes "globals_get_filename e = Some (make_filename e')"
    and "create_thread e stream_name audio w = (Inr thread, w')"
  shows "thread = length (started w) \<and>
    (\<exists>name. started w' = started w @ [(stream_name, audio, name)])"
  using assms
  by (auto simp: create_thread_def make_filename_def split: option.splits sum.splits)

text \<open>
  Were \<open>get_filename\<close> bound to \<open>make_filename\<close>, a \<open>start_queue\<close> that returns would
  have started one thread per entry, in the order of the queue, and returned their handles in
  that order; each launch follows the first reading of \<open>time()\<close> that is at least the
  entry's delay past \<open>begin\<close> (\<open>wait_until_reading\<close>).
\<close>

lemma start_loop_bound:
  assumes "globals_get_filename e = Some (make_filename e')"
  shows "start_loop e begin0 audio queue threads w = Some (Inr threads', w') \<Longrightarrow>
    map fst (started w') = map fst (started w) @ map fst queue \<and>
    threads' = threads @ [length (started w) ..< length (started w) + length queue]"
proof (induction queue arbitrary: threads w)
  case Nil
  then show ?case by simp
next
  case (Cons entry queue)
  from Cons.prems obtain n where n: "wait_until e begin0 (snd entry) (ticks w) = Some n"
    by (cases "wait_until e begin0 (snd entry) (ticks w)") auto
  obtain r w1 where c: "create_thread e (fst entry) audio (w\<lparr>ticks := n\<rparr>) = (r, w1)"
    by (cases "create_thread e (fst entry) audio (w\<lparr>ticks := n\<rparr>)") auto
  with Cons.prems n obtain thread where r: "r = Inr thread"
    by (cases r) auto
  from create_thread_bound [OF assms c [unfolded r]]
  have t: "thread = length (started w)"
    and s: "\<exists>name. started w1 = started w @ [(fst entry, audio, name)]" by simp_all
  from Cons.prems n c r
  have "start_loop e begin0 audio queue (threads @ [thread]) w1 = Some (Inr threads', w')"
    by simp
  from Cons.IH [OF this]
  have a: "map fst (started w') = map fst (started w1) @ map fst queue"
    and b: "threads' = (threads @ [thread]) @
        [length (started w1) ..< length (started w1) + length queue]"
    by simp_all
  from s have l: "length (started w1) = Suc (length (started w))"
    and f: "map fst (started w1) = map fst (started w) @ [fst entry]"
    by auto
  have "[length (started w) ..< length (started w) + length (entry # queue)] =
      length (started w) # [Suc (length (started w)) ..< Suc (length (started w)) + length queue]"
    by (subst upt_conv_Cons) simp_all
  with a b t l f show ?case by (simp del: upt_Suc)
qed

end
